theory Spec2Isabelle
  imports Main "HOL-Library.AList"
begin

section \<open>JavaScript values and protocol data\<close>

text \<open>
  The values that reach the broker come out of \<^verbatim>\<open>JSON.parse\<close>. Numbers are
  restricted to integers. A field that is absent from an object reads as
  \<open>JUndefined\<close>.
\<close>

datatype jsval =
    JUndefined
  | JNull
  | JBool bool
  | JNum int
  | JStr string
  | JObj "(string \<times> jsval) list"
  | JArr "jsval list"

text \<open>JavaScript truthiness, as used by \<^verbatim>\<open>!x\<close> and \<^verbatim>\<open>x || y\<close>.\<close>

fun truthy :: "jsval \<Rightarrow> bool" where
  "truthy JUndefined = False"
| "truthy JNull = False"
| "truthy (JBool b) = b"
| "truthy (JNum n) = (n \<noteq> 0)"
| "truthy (JStr s) = (s \<noteq> [])"
| "truthy (JObj fs) = True"
| "truthy (JArr xs) = True"

text \<open>A published message: the object's \<^verbatim>\<open>id\<close>, \<^verbatim>\<open>payload\<close> and \<^verbatim>\<open>ts\<close> fields.\<close>

record message =
  msg_id :: jsval
  payload :: jsval
  msg_ts :: jsval

text \<open>
  The object \<^verbatim>\<open>{type: 'event', topic, message, ts, replay}\<close> built by the engine.
  \<open>replay\<close> is \<open>True\<close> exactly when the object carries \<^verbatim>\<open>replay: true\<close>;
  \<open>ev_ts\<close> is the clock reading rendered by \<^verbatim>\<open>new Date().toISOString()\<close>.
\<close>

record event =
  ev_topic :: string
  ev_message :: message
  ev_ts :: int
  replay :: bool

text \<open>What is written to a connection: events from the engine, and the handler's replies.\<close>

datatype frame =
    Event event
  | Ack jsval string "nat option" int
  | Error string string int
  | Pong jsval int
  | Info string int

section \<open>Connections\<close>

text \<open>
  A WebSocket object is shared by reference between the handler and the subscriber maps
  of the topics, so connections live in a store indexed by a handle. Of a connection the
  model keeps its \<^verbatim>\<open>readyState\<close> (1 is OPEN, 2 CLOSING, 3 CLOSED), the frames handed
  to \<^verbatim>\<open>send\<close> while it was open, and the arguments of every \<^verbatim>\<open>close\<close> call.
\<close>

record ws =
  readyState :: nat
  sent :: "frame list"
  closeCalls :: "(nat \<times> string) list"

type_synonym wsref = nat
type_synonym heap = "wsref \<Rightarrow> ws"

text \<open>\<^verbatim>\<open>ws.close(code, reason)\<close>: the connection leaves the OPEN state.\<close>

definition ws_close :: "nat \<Rightarrow> string \<Rightarrow> ws \<Rightarrow> ws" where
  "ws_close code reason w =
     w\<lparr>readyState := (if readyState w = 3 then 3 else 2),
       closeCalls := closeCalls w @ [(code, reason)]\<rparr>"

text \<open>
  \<^verbatim>\<open>sendToClient(ws, message)\<close> of the engine: returns false without sending when the
  connection is not OPEN. A \<^verbatim>\<open>send\<close> on an OPEN connection is taken to succeed.
\<close>

definition sendToClient :: "wsref \<Rightarrow> frame \<Rightarrow> heap \<Rightarrow> bool \<times> heap" where
  "sendToClient w msg h =
     (if readyState (h w) \<noteq> 1 then (False, h)
      else (True, h(w := (h w)\<lparr>sent := sent (h w) @ [msg]\<rparr>)))"

section \<open>SubscriberQueue\<close>

record subscriber_queue =
  clientId :: string
  maxSize :: int
  policy :: string
  queue :: "event list"
  droppedCount :: nat
  totalProcessed :: nat

text \<open>The constructor: \<^verbatim>\<open>new SubscriberQueue(clientId, maxSize, policy)\<close>.\<close>

definition new_queue :: "string \<Rightarrow> int \<Rightarrow> string \<Rightarrow> subscriber_queue" where
  "new_queue c m p =
     \<lparr>clientId = c, maxSize = m, policy = p, queue = [], droppedCount = 0, totalProcessed = 0\<rparr>"

text \<open>The object returned by \<^verbatim>\<open>add\<close>; an absent field is \<open>None\<close>.\<close>

record add_result =
  success :: bool
  action :: string
  reason :: "string option"
  droppedMessage :: "event option"
  res_droppedCount :: nat

text \<open>\<^verbatim>\<open>Array.prototype.shift\<close> returns the head, or undefined on an empty array.\<close>

definition shift_head :: "'a list \<Rightarrow> 'a option" where
  "shift_head xs = (case xs of [] \<Rightarrow> None | x # _ \<Rightarrow> Some x)"

definition add :: "event \<Rightarrow> wsref \<Rightarrow> subscriber_queue \<Rightarrow> heap \<Rightarrow> add_result \<times> subscriber_queue \<times> heap" where
  "add msg w q h =
     (if maxSize q \<le> int (length (queue q)) then
        if policy q = ''disconnect'' then
          (\<lparr>success = False, action = ''disconnected'', reason = Some ''SLOW_CONSUMER'',
            droppedMessage = None, res_droppedCount = droppedCount q\<rparr>,
           q, h(w := ws_close 1013 ''SLOW_CONSUMER'' (h w)))
        else
          (\<lparr>success = True, action = ''dropped_oldest'', reason = None,
            droppedMessage = shift_head (queue q), res_droppedCount = droppedCount q + 1\<rparr>,
           q\<lparr>queue := tl (queue q) @ [msg], droppedCount := droppedCount q + 1,
             totalProcessed := totalProcessed q + 1\<rparr>,
           h)
      else
        (\<lparr>success = True, action = ''added'', reason = None,
          droppedMessage = None, res_droppedCount = droppedCount q\<rparr>,
         q\<lparr>queue := queue q @ [msg], totalProcessed := totalProcessed q + 1\<rparr>,
         h))"

text \<open>\<^verbatim>\<open>getNext()\<close>: pops the head, or returns null on an empty queue.\<close>

definition getNext :: "subscriber_queue \<Rightarrow> event option \<times> subscriber_queue" where
  "getNext q = (case queue q of [] \<Rightarrow> (None, q) | x # xs \<Rightarrow> (Some x, q\<lparr>queue := xs\<rparr>))"

text \<open>A run of \<^verbatim>\<open>add\<close> calls with no \<^verbatim>\<open>getNext\<close> in between.\<close>

fun add_all :: "event list \<Rightarrow> wsref \<Rightarrow> subscriber_queue \<Rightarrow> heap \<Rightarrow> subscriber_queue \<times> heap" where
  "add_all [] w q h = (q, h)"
| "add_all (m # ms) w q h = (case add m w q h of (r, q', h') \<Rightarrow> add_all ms w q' h')"

section \<open>PubSubEngine\<close>

text \<open>
  A JavaScript \<^verbatim>\<open>Map\<close> keeps its entries in insertion order and the engine iterates
  over them, so a \<^verbatim>\<open>Map\<close> is an association list: \<^verbatim>\<open>get\<close> is \<open>map_of\<close>, \<^verbatim>\<open>set\<close> is
  \<open>AList.update\<close> (in place for a key that is present, at the end otherwise) and
  \<^verbatim>\<open>delete\<close> is \<open>AList.delete\<close>. A \<^verbatim>\<open>Set\<close> of topic names is a list without
  repetitions.

  An operation that reads the clock (\<^verbatim>\<open>Date.now()\<close>, \<^verbatim>\<open>new Date()\<close>) takes the reading
  as its argument \<open>now\<close>. The notifications that the engine emits to its listeners
  (\<^verbatim>\<open>topicCreated\<close>, \<^verbatim>\<open>messageDropped\<close>, ...) are not part of the model.
\<close>

definition has :: "('k \<times> 'v) list \<Rightarrow> 'k \<Rightarrow> bool" where
  "has m k = (map_of m k \<noteq> None)"

definition set_add :: "'a \<Rightarrow> 'a list \<Rightarrow> 'a list" where
  "set_add x xs = (if x \<in> set xs then xs else xs @ [x])"

definition set_delete :: "'a \<Rightarrow> 'a list \<Rightarrow> 'a list" where
  "set_delete x xs = removeAll x xs"

record topic =
  subscribers :: "(string \<times> wsref) list"
  messages :: "message list"
  createdAt :: int

record engine =
  topics :: "(string \<times> topic) list"
  clientTopics :: "(string \<times> string list) list"
  subscriberQueues :: "(string \<times> subscriber_queue) list"
  maxMessagesPerTopic :: int
  maxQueueSize :: int
  backpressurePolicy :: string

text \<open>The constructor's options; \<open>None\<close> is an option that was not given.\<close>

record options =
  opt_maxMessagesPerTopic :: "int option"
  opt_maxQueueSize :: "int option"
  opt_backpressurePolicy :: "string option"

text \<open>\<^verbatim>\<open>options.x || d\<close>: the default replaces an absent and a falsy value alike.\<close>

definition num_or :: "int option \<Rightarrow> int \<Rightarrow> int" where
  "num_or v d = (case v of None \<Rightarrow> d | Some n \<Rightarrow> if n = 0 then d else n)"

definition str_or :: "string option \<Rightarrow> string \<Rightarrow> string" where
  "str_or v d = (case v of None \<Rightarrow> d | Some s \<Rightarrow> if s = [] then d else s)"

definition new_engine :: "options \<Rightarrow> engine" where
  "new_engine opts =
     \<lparr>topics = [], clientTopics = [], subscriberQueues = [],
      maxMessagesPerTopic = num_or (opt_maxMessagesPerTopic opts) 100,
      maxQueueSize = num_or (opt_maxQueueSize opts) 100,
      backpressurePolicy = str_or (opt_backpressurePolicy opts) ''drop_oldest''\<rparr>"

subsection \<open>createTopic and deleteTopic\<close>

definition createTopic :: "string \<Rightarrow> int \<Rightarrow> engine \<Rightarrow> bool \<times> engine" where
  "createTopic topicName now e =
     (if has (topics e) topicName then (False, e)
      else (True, e\<lparr>topics := AList.update topicName
                      \<lparr>subscribers = [], messages = [], createdAt = now\<rparr> (topics e)\<rparr>))"

text \<open>The first loop of \<^verbatim>\<open>deleteTopic\<close>: close the connection of every subscriber.\<close>

fun close_all :: "(string \<times> wsref) list \<Rightarrow> heap \<Rightarrow> heap" where
  "close_all [] h = h"
| "close_all ((c, w) # rest) h = close_all rest (h(w := ws_close 1000 ''Topic deleted'' (h w)))"

text \<open>
  The second loop: the topic leaves every client's set, and a client whose set became
  empty leaves \<^verbatim>\<open>clientTopics\<close>.
\<close>

fun cleanup_clientTopics :: "string \<Rightarrow> (string \<times> string list) list \<Rightarrow> (string \<times> string list) list" where
  "cleanup_clientTopics topicName [] = []"
| "cleanup_clientTopics topicName ((c, ts) # rest) =
     (if set_delete topicName ts = [] then cleanup_clientTopics topicName rest
      else (c, set_delete topicName ts) # cleanup_clientTopics topicName rest)"

definition deleteTopic :: "string \<Rightarrow> engine \<Rightarrow> heap \<Rightarrow> bool \<times> engine \<times> heap" where
  "deleteTopic topicName e h =
     (case map_of (topics e) topicName of
        None \<Rightarrow> (False, e, h)
      | Some t \<Rightarrow>
          (True,
           e\<lparr>topics := AList.delete topicName (topics e),
             clientTopics := cleanup_clientTopics topicName (clientTopics e)\<rparr>,
           close_all (subscribers t) h))"

subsection \<open>subscribe and unsubscribe\<close>

text \<open>
  \<^verbatim>\<open>xs.slice(-n)\<close> for a positive integer \<open>n\<close>: the last \<open>n\<close> elements, or all of
  them when there are fewer. \<^verbatim>\<open>lastN\<close> is an integer in the model.
\<close>

definition slice_last :: "int \<Rightarrow> 'a list \<Rightarrow> 'a list" where
  "slice_last n xs = drop (length xs - nat n) xs"

definition replay_event :: "string \<Rightarrow> int \<Rightarrow> message \<Rightarrow> event" where
  "replay_event topicName now m =
     \<lparr>ev_topic = topicName, ev_message = m, ev_ts = now, replay = True\<rparr>"

text \<open>The replay loop: one \<^verbatim>\<open>sendToClient\<close> per message, results ignored.\<close>

fun replay_messages :: "string \<Rightarrow> wsref \<Rightarrow> int \<Rightarrow> message list \<Rightarrow> heap \<Rightarrow> heap" where
  "replay_messages topicName w now [] h = h"
| "replay_messages topicName w now (m # ms) h =
     replay_messages topicName w now ms
       (snd (sendToClient w (Event (replay_event topicName now m)) h))"

definition subscribe ::
  "string \<Rightarrow> string \<Rightarrow> wsref \<Rightarrow> int \<Rightarrow> int \<Rightarrow> engine \<Rightarrow> heap \<Rightarrow> (string + unit) \<times> engine \<times> heap" where
  "subscribe topicName cid w lastN now e h =
     (case map_of (topics e) topicName of
        None \<Rightarrow> (Inl ''TOPIC_NOT_FOUND'', e, h)
      | Some t \<Rightarrow>
          if has (subscribers t) cid then (Inl ''ALREADY_SUBSCRIBED'', e, h)
          else
            let qs = (if \<not> has (subscriberQueues e) cid
                      then AList.update cid
                             (new_queue cid (maxQueueSize e) (backpressurePolicy e))
                             (subscriberQueues e)
                      else subscriberQueues e);
                t' = t\<lparr>subscribers := AList.update cid w (subscribers t)\<rparr>;
                ct = (if \<not> has (clientTopics e) cid
                      then AList.update cid [] (clientTopics e)
                      else clientTopics e);
                ct' = AList.map_entry cid (set_add topicName) ct;
                h' = (if 0 < lastN \<and> messages t \<noteq> []
                      then replay_messages topicName w now (slice_last lastN (messages t)) h
                      else h)
            in (Inr (),
                e\<lparr>topics := AList.update topicName t' (topics e),
                  clientTopics := ct', subscriberQueues := qs\<rparr>,
                h'))"

definition unsubscribe :: "string \<Rightarrow> string \<Rightarrow> engine \<Rightarrow> bool \<times> engine" where
  "unsubscribe topicName cid e =
     (case map_of (topics e) topicName of
        None \<Rightarrow> (False, e)
      | Some t \<Rightarrow>
          if \<not> has (subscribers t) cid then (False, e)
          else
            let e1 = e\<lparr>topics := AList.update topicName
                               (t\<lparr>subscribers := AList.delete cid (subscribers t)\<rparr>) (topics e)\<rparr>
            in (case map_of (clientTopics e) cid of
                  None \<Rightarrow> (True, e1)
                | Some ts \<Rightarrow>
                    if set_delete topicName ts = []
                    then (True, e1\<lparr>clientTopics := AList.delete cid (clientTopics e),
                                   subscriberQueues := AList.delete cid (subscriberQueues e)\<rparr>)
                    else (True, e1\<lparr>clientTopics :=
                                     AList.update cid (set_delete topicName ts) (clientTopics e)\<rparr>)))"

text \<open>\<^verbatim>\<open>disconnectClient\<close>: one \<^verbatim>\<open>unsubscribe\<close> per topic of the client's set.\<close>

fun unsubscribe_each :: "string list \<Rightarrow> string \<Rightarrow> engine \<Rightarrow> engine" where
  "unsubscribe_each [] cid e = e"
| "unsubscribe_each (t # ts) cid e = unsubscribe_each ts cid (snd (unsubscribe t cid e))"

definition disconnectClient :: "string \<Rightarrow> engine \<Rightarrow> bool \<times> engine" where
  "disconnectClient cid e =
     (case map_of (clientTopics e) cid of
        None \<Rightarrow> (False, e)
      | Some ts \<Rightarrow> (True, unsubscribe_each ts cid e))"

subsection \<open>publish\<close>

text \<open>One entry of \<^verbatim>\<open>deliveryResults\<close>, by the branch of the loop that pushed it.\<close>

datatype delivery =
    QueueNotFound string
  | Delivered string bool string nat
  | Refused string string "string option" nat

record publish_ok =
  pub_subscribers :: nat
  deliveryResults :: "delivery list"

definition live_event :: "string \<Rightarrow> int \<Rightarrow> message \<Rightarrow> event" where
  "live_event topicName now m =
     \<lparr>ev_topic = topicName, ev_message = m, ev_ts = now, replay = False\<rparr>"

text \<open>The fan-out loop over the entries of \<^verbatim>\<open>topic.subscribers\<close>.\<close>

fun fan_out ::
  "string \<Rightarrow> message \<Rightarrow> int \<Rightarrow> (string \<times> wsref) list \<Rightarrow> (string \<times> subscriber_queue) list \<Rightarrow> heap
     \<Rightarrow> delivery list \<times> (string \<times> subscriber_queue) list \<times> heap" where
  "fan_out topicName m now [] qs h = ([], qs, h)"
| "fan_out topicName m now ((cid, w) # rest) qs h =
     (case map_of qs cid of
        None \<Rightarrow>
          (case fan_out topicName m now rest qs h of
             (rs, qs', h') \<Rightarrow> (QueueNotFound cid # rs, qs', h'))
      | Some q \<Rightarrow>
          (case add (live_event topicName now m) w q h of
             (r, q', h1) \<Rightarrow>
               if success r then
                 (case sendToClient w (Event (live_event topicName now m)) h1 of
                    (sendResult, h2) \<Rightarrow>
                      (case fan_out topicName m now rest (AList.update cid q' qs) h2 of
                         (rs, qs', h') \<Rightarrow>
                           (Delivered cid sendResult (action r) (res_droppedCount r) # rs, qs', h')))
               else
                 (case fan_out topicName m now rest (AList.update cid q' qs) h1 of
                    (rs, qs', h') \<Rightarrow>
                      (Refused cid (action r) (reason r) (res_droppedCount r) # rs, qs', h'))))"

text \<open>\<^verbatim>\<open>if (!message.ts) message.ts = Date.now()\<close>.\<close>

definition stamp :: "int \<Rightarrow> message \<Rightarrow> message" where
  "stamp now m = (if \<not> truthy (msg_ts m) then m\<lparr>msg_ts := JNum now\<rparr> else m)"

text \<open>\<^verbatim>\<open>push\<close>, then one \<^verbatim>\<open>shift\<close> when the length exceeds the capacity.\<close>

definition ring_push :: "int \<Rightarrow> message \<Rightarrow> message list \<Rightarrow> message list" where
  "ring_push cap m ms = (if cap < int (length (ms @ [m])) then tl (ms @ [m]) else ms @ [m])"

definition publish ::
  "string \<Rightarrow> message \<Rightarrow> int \<Rightarrow> engine \<Rightarrow> heap \<Rightarrow> (string + publish_ok) \<times> engine \<times> heap" where
  "publish topicName m now e h =
     (case map_of (topics e) topicName of
        None \<Rightarrow> (Inl ''TOPIC_NOT_FOUND'', e, h)
      | Some t \<Rightarrow>
          if \<not> truthy (msg_id m) \<or> \<not> truthy (payload m) then (Inl ''INVALID_MESSAGE'', e, h)
          else
            (case fan_out topicName (stamp now m) now (subscribers t) (subscriberQueues e) h of
               (rs, qs, h') \<Rightarrow>
                 (Inr \<lparr>pub_subscribers = length (subscribers t), deliveryResults = rs\<rparr>,
                  e\<lparr>topics := AList.update topicName
                       (t\<lparr>messages := ring_push (maxMessagesPerTopic e) (stamp now m) (messages t)\<rparr>)
                       (topics e),
                    subscriberQueues := qs\<rparr>,
                  h')))"

subsection \<open>Snapshots\<close>

record topic_info =
  info_name :: string
  info_subscribers :: nat
  info_messages :: nat
  info_createdAt :: int

definition getTopic :: "string \<Rightarrow> engine \<Rightarrow> topic_info option" where
  "getTopic topicName e =
     (case map_of (topics e) topicName of
        None \<Rightarrow> None
      | Some t \<Rightarrow> Some \<lparr>info_name = topicName, info_subscribers = length (subscribers t),
                       info_messages = length (messages t), info_createdAt = createdAt t\<rparr>)"

subsection \<open>Runs of publishes\<close>

text \<open>The check of \<^verbatim>\<open>publish\<close> on the message: both \<^verbatim>\<open>id\<close> and \<^verbatim>\<open>payload\<close> truthy.\<close>

definition valid_message :: "message \<Rightarrow> bool" where
  "valid_message m = (truthy (msg_id m) \<and> truthy (payload m))"

text \<open>Consecutive publishes to one topic, each with its own clock reading.\<close>

fun publish_all :: "string \<Rightarrow> (message \<times> int) list \<Rightarrow> engine \<Rightarrow> heap \<Rightarrow> engine \<times> heap" where
  "publish_all topicName [] e h = (e, h)"
| "publish_all topicName ((m, now) # rest) e h =
     (case publish topicName m now e h of (r, e', h') \<Rightarrow> publish_all topicName rest e' h')"

subsection \<open>shutdown\<close>

text \<open>
  \<^verbatim>\<open>shutdown\<close>: one \<^verbatim>\<open>disconnectClient\<close> per key of \<^verbatim>\<open>clientTopics\<close>, then both
  \<^verbatim>\<open>topics\<close> and \<^verbatim>\<open>clientTopics\<close> are cleared. The heartbeat timer is not modelled.
\<close>

fun disconnect_each :: "string list \<Rightarrow> engine \<Rightarrow> engine" where
  "disconnect_each [] e = e"
| "disconnect_each (c # cs) e = disconnect_each cs (snd (disconnectClient c e))"

definition shutdown :: "engine \<Rightarrow> engine" where
  "shutdown e = (disconnect_each (map fst (clientTopics e)) e)\<lparr>topics := [], clientTopics := []\<rparr>"

section \<open>Reachable engine states\<close>

text \<open>
  The states an engine goes through: it is constructed, and then any of its operations
  runs, with any arguments and any state of the connections.
\<close>

inductive reachable :: "engine \<Rightarrow> bool" where
  constructed: "reachable (new_engine opts)"
| after_createTopic: "reachable e \<Longrightarrow> reachable (snd (createTopic n now e))"
| after_deleteTopic: "reachable e \<Longrightarrow> reachable (fst (snd (deleteTopic n e h)))"
| after_subscribe: "reachable e \<Longrightarrow> reachable (fst (snd (subscribe T c w lastN now e h)))"
| after_unsubscribe: "reachable e \<Longrightarrow> reachable (snd (unsubscribe T c e))"
| after_publish: "reachable e \<Longrightarrow> reachable (fst (snd (publish T m now e h)))"
| after_disconnectClient: "reachable e \<Longrightarrow> reachable (snd (disconnectClient c e))"
| after_shutdown: "reachable e \<Longrightarrow> reachable (shutdown e)"

text \<open>
  What the registry maintains: in every topic no client is listed twice, and every
  subscriber of a topic has a queue and has the topic in its own topic set.
\<close>

definition engine_inv :: "engine \<Rightarrow> bool" where
  "engine_inv e =
     (\<forall>T t. map_of (topics e) T = Some t \<longrightarrow>
        distinct (map fst (subscribers t)) \<and>
        (\<forall>c. has (subscribers t) c \<longrightarrow>
           has (subscriberQueues e) c \<and>
           (\<exists>ts. map_of (clientTopics e) c = Some ts \<and> T \<in> set ts)))"

text \<open>No ring buffer is longer than the configured capacity.\<close>

definition ring_bounded :: "engine \<Rightarrow> bool" where
  "ring_bounded e =
     (\<forall>T t. map_of (topics e) T = Some t \<longrightarrow> int (length (messages t)) \<le> maxMessagesPerTopic e)"

section \<open>WebSocketHandler\<close>

text \<open>
  The handler keeps one record per connection, under the connection identity that
  \<^verbatim>\<open>handleConnection\<close> generated. \<open>clientProvidedId\<close> is \<open>None\<close> until a message
  has set it. The ping timer of a connection is not modelled.
\<close>

record client_info =
  ci_ws :: wsref
  ci_topics :: "string list"
  connectedAt :: int
  lastPing :: int
  clientProvidedId :: "string option"

record handler =
  clients :: "(string \<times> client_info) list"
  connectionCounter :: int

text \<open>
  A protocol message after \<^verbatim>\<open>JSON.parse\<close>, by the fields that \<^verbatim>\<open>handleMessage\<close>
  destructures. \<open>None\<close> is an absent field; \<^verbatim>\<open>type\<close>, \<^verbatim>\<open>topic\<close> and \<^verbatim>\<open>client_id\<close>
  are strings and \<^verbatim>\<open>last_n\<close> is an integer, as the protocol documents them;
  \<open>in_message\<close> is \<open>None\<close> also for a \<^verbatim>\<open>message\<close> that is not an object.
\<close>

record inbound =
  in_type :: "string option"
  in_topic :: "string option"
  in_message :: "message option"
  in_client_id :: "string option"
  in_last_n :: "int option"
  in_request_id :: jsval

text \<open>
  What arrives on the socket: text that \<^verbatim>\<open>JSON.parse\<close> rejects, a JSON value that is
  not an object, or an object.
\<close>

datatype parsed = Malformed | NotObject | Object inbound

text \<open>\<^verbatim>\<open>!s\<close> for a field that holds a string or is absent.\<close>

definition falsy :: "string option \<Rightarrow> bool" where
  "falsy s = (case s of None \<Rightarrow> True | Some x \<Rightarrow> x = [])"

definition validTypes :: "string list" where
  "validTypes = [''subscribe'', ''unsubscribe'', ''publish'', ''ping'']"

definition validateMessage :: "parsed \<Rightarrow> bool" where
  "validateMessage p =
     (case p of
        Malformed \<Rightarrow> False
      | NotObject \<Rightarrow> False
      | Object m \<Rightarrow>
          (case in_type m of
             None \<Rightarrow> False
           | Some ty \<Rightarrow>
               if ty = [] then False
               else if ty \<notin> set validTypes then False
               else if ty = ''subscribe'' \<or> ty = ''unsubscribe'' \<or> ty = ''publish''
                    then \<not> falsy (in_topic m)
               else True))"

text \<open>\<^verbatim>\<open>sendToClient\<close> of the handler: sends when the connection is OPEN, returns nothing.\<close>

definition handler_sendToClient :: "wsref \<Rightarrow> frame \<Rightarrow> heap \<Rightarrow> heap" where
  "handler_sendToClient w f h =
     (if readyState (h w) = 1 then h(w := (h w)\<lparr>sent := sent (h w) @ [f]\<rparr>) else h)"

definition sendError :: "string \<Rightarrow> string \<Rightarrow> string \<Rightarrow> int \<Rightarrow> handler \<Rightarrow> heap \<Rightarrow> heap" where
  "sendError conn errorCode errText now hs h =
     (case map_of (clients hs) conn of
        None \<Rightarrow> h
      | Some ci \<Rightarrow>
          if readyState (h (ci_ws ci)) \<noteq> 1 then h
          else handler_sendToClient (ci_ws ci) (Error errorCode errText now) h)"

text \<open>\<^verbatim>\<open>client.clientProvidedId || clientId\<close>.\<close>

definition pubsubClientId :: "client_info \<Rightarrow> string \<Rightarrow> string" where
  "pubsubClientId ci conn =
     (case clientProvidedId ci of None \<Rightarrow> conn | Some s \<Rightarrow> if s = [] then conn else s)"

definition handleConnection :: "string \<Rightarrow> wsref \<Rightarrow> int \<Rightarrow> handler \<Rightarrow> heap \<Rightarrow> handler \<times> heap" where
  "handleConnection conn w now hs h =
     (hs\<lparr>clients := AList.update conn
                       \<lparr>ci_ws = w, ci_topics = [], connectedAt = now, lastPing = now,
                        clientProvidedId = None\<rparr> (clients hs),
         connectionCounter := connectionCounter hs + 1\<rparr>,
      handler_sendToClient w (Info ''Connected to Pub/Sub system'' now) h)"

definition handleSubscribe ::
  "string \<Rightarrow> string option \<Rightarrow> int \<Rightarrow> jsval \<Rightarrow> int \<Rightarrow> handler \<Rightarrow> engine \<Rightarrow> heap
     \<Rightarrow> handler \<times> engine \<times> heap" where
  "handleSubscribe conn topic lastN requestId now hs e h =
     (case topic of
        None \<Rightarrow> (hs, e, sendError conn ''BAD_REQUEST'' ''Topic is required for subscribe'' now hs h)
      | Some t \<Rightarrow>
          if t = [] then
            (hs, e, sendError conn ''BAD_REQUEST'' ''Topic is required for subscribe'' now hs h)
          else
            (case map_of (clients hs) conn of
               None \<Rightarrow> (hs, e, sendError conn ''UNAUTHORIZED'' ''Client not found'' now hs h)
             | Some ci \<Rightarrow>
                 (case subscribe t (pubsubClientId ci conn) (ci_ws ci) lastN now e h of
                    (Inr ok, e', h') \<Rightarrow>
                      (hs\<lparr>clients := AList.update conn
                                        (ci\<lparr>ci_topics := set_add t (ci_topics ci)\<rparr>) (clients hs)\<rparr>,
                       e',
                       handler_sendToClient (ci_ws ci) (Ack requestId t None now) h')
                  | (Inl err, e', h') \<Rightarrow>
                      (hs, e',
                       sendError conn err (''Failed to subscribe to topic: '' @ t) now hs h'))))"

definition handleUnsubscribe ::
  "string \<Rightarrow> string option \<Rightarrow> jsval \<Rightarrow> int \<Rightarrow> handler \<Rightarrow> engine \<Rightarrow> heap
     \<Rightarrow> handler \<times> engine \<times> heap" where
  "handleUnsubscribe conn topic requestId now hs e h =
     (case topic of
        None \<Rightarrow> (hs, e, sendError conn ''BAD_REQUEST'' ''Topic is required for unsubscribe'' now hs h)
      | Some t \<Rightarrow>
          if t = [] then
            (hs, e, sendError conn ''BAD_REQUEST'' ''Topic is required for unsubscribe'' now hs h)
          else
            (case map_of (clients hs) conn of
               None \<Rightarrow> (hs, e, sendError conn ''UNAUTHORIZED'' ''Client not found'' now hs h)
             | Some ci \<Rightarrow>
                 (case unsubscribe t (pubsubClientId ci conn) e of
                    (True, e') \<Rightarrow>
                      (hs\<lparr>clients := AList.update conn
                                        (ci\<lparr>ci_topics := set_delete t (ci_topics ci)\<rparr>) (clients hs)\<rparr>,
                       e',
                       handler_sendToClient (ci_ws ci) (Ack requestId t None now) h)
                  | (False, e') \<Rightarrow>
                      (hs, e',
                       sendError conn ''TOPIC_NOT_FOUND''
                         (''Topic not found or not subscribed: '' @ t) now hs h))))"

text \<open>
  In \<^verbatim>\<open>handlePublish\<close> the acknowledgement reads \<^verbatim>\<open>this.clients.get(clientId).ws\<close>;
  for a connection that is no longer registered this throws after the publish was done,
  and the \<^verbatim>\<open>catch\<close> of \<^verbatim>\<open>handleMessage\<close> finds nobody to send the error to.
\<close>

definition handlePublish ::
  "string \<Rightarrow> string option \<Rightarrow> message option \<Rightarrow> jsval \<Rightarrow> int \<Rightarrow> handler \<Rightarrow> engine \<Rightarrow> heap
     \<Rightarrow> handler \<times> engine \<times> heap" where
  "handlePublish conn topic message requestId now hs e h =
     (case topic of
        None \<Rightarrow> (hs, e, sendError conn ''BAD_REQUEST'' ''Topic is required for publish'' now hs h)
      | Some t \<Rightarrow>
          if t = [] then
            (hs, e, sendError conn ''BAD_REQUEST'' ''Topic is required for publish'' now hs h)
          else
            (case message of
               None \<Rightarrow>
                 (hs, e, sendError conn ''BAD_REQUEST'' ''Message must have id and payload'' now hs h)
             | Some m \<Rightarrow>
                 if \<not> truthy (msg_id m) \<or> \<not> truthy (payload m) then
                   (hs, e, sendError conn ''BAD_REQUEST'' ''Message must have id and payload'' now hs h)
                 else
                   (case publish t m now e h of
                      (Inr ok, e', h') \<Rightarrow>
                        (case map_of (clients hs) conn of
                           None \<Rightarrow> (hs, e', sendError conn ''INTERNAL'' ''Internal server error'' now hs h')
                         | Some ci \<Rightarrow>
                             (hs, e',
                              handler_sendToClient (ci_ws ci)
                                (Ack requestId t (Some (pub_subscribers ok)) now) h'))
                    | (Inl err, e', h') \<Rightarrow>
                        (hs, e',
                         sendError conn err (''Failed to publish to topic: '' @ t) now hs h'))))"

definition handlePing :: "string \<Rightarrow> jsval \<Rightarrow> int \<Rightarrow> handler \<Rightarrow> engine \<Rightarrow> heap \<Rightarrow> handler \<times> engine \<times> heap" where
  "handlePing conn requestId now hs e h =
     (case map_of (clients hs) conn of
        None \<Rightarrow> (hs, e, sendError conn ''UNAUTHORIZED'' ''Client not found'' now hs h)
      | Some ci \<Rightarrow>
          (hs\<lparr>clients := AList.update conn (ci\<lparr>lastPing := now\<rparr>) (clients hs)\<rparr>, e,
           handler_sendToClient (ci_ws ci) (Pong requestId now) h))"

text \<open>
  The assignment \<^verbatim>\<open>client.clientProvidedId = client_id\<close> of \<^verbatim>\<open>handleMessage\<close>, done
  whenever the connection is registered and the message carries a truthy \<^verbatim>\<open>client_id\<close>.
\<close>

definition store_client_id :: "string \<Rightarrow> string option \<Rightarrow> handler \<Rightarrow> handler" where
  "store_client_id conn client_id hs =
     (case map_of (clients hs) conn of
        None \<Rightarrow> hs
      | Some ci \<Rightarrow>
          if falsy client_id then hs
          else hs\<lparr>clients := AList.update conn (ci\<lparr>clientProvidedId := client_id\<rparr>) (clients hs)\<rparr>)"

definition handleMessage ::
  "string \<Rightarrow> parsed \<Rightarrow> int \<Rightarrow> handler \<Rightarrow> engine \<Rightarrow> heap \<Rightarrow> handler \<times> engine \<times> heap" where
  "handleMessage conn data now hs e h =
     (case data of
        Malformed \<Rightarrow> (hs, e, sendError conn ''BAD_REQUEST'' ''Invalid JSON message'' now hs h)
      | NotObject \<Rightarrow> (hs, e, sendError conn ''BAD_REQUEST'' ''Invalid message format'' now hs h)
      | Object m \<Rightarrow>
          if \<not> validateMessage (Object m) then
            (hs, e, sendError conn ''BAD_REQUEST'' ''Invalid message format'' now hs h)
          else if (in_type m = Some ''subscribe'' \<or> in_type m = Some ''unsubscribe'' \<or>
                   in_type m = Some ''publish'') \<and> falsy (in_client_id m) then
            (hs, e, sendError conn ''BAD_REQUEST'' ''client_id is required for this operation'' now hs h)
          else
            let hs1 = store_client_id conn (in_client_id m) hs;
                lastN = (case in_last_n m of None \<Rightarrow> 0 | Some n \<Rightarrow> n)
            in if in_type m = Some ''subscribe'' then
                 handleSubscribe conn (in_topic m) lastN (in_request_id m) now hs1 e h
               else if in_type m = Some ''unsubscribe'' then
                 handleUnsubscribe conn (in_topic m) (in_request_id m) now hs1 e h
               else if in_type m = Some ''publish'' then
                 handlePublish conn (in_topic m) (in_message m) (in_request_id m) now hs1 e h
               else if in_type m = Some ''ping'' then
                 handlePing conn (in_request_id m) now hs1 e h
               else
                 (hs1, e,
                  sendError conn ''BAD_REQUEST''
                    (''Unknown message type: '' @ (case in_type m of None \<Rightarrow> [] | Some ty \<Rightarrow> ty))
                    now hs1 h))"

text \<open>
  \<^verbatim>\<open>handleClose\<close>, run when the transport reports that the connection is closed: one
  \<^verbatim>\<open>unsubscribe\<close> per topic of the connection's set, under the identity the connection
  has at that moment. The loop is the one of \<open>disconnectClient\<close>. The close code and
  reason that the handler receives are only logged.
\<close>

definition handleClose :: "string \<Rightarrow> handler \<Rightarrow> engine \<Rightarrow> handler \<times> engine" where
  "handleClose conn hs e =
     (case map_of (clients hs) conn of
        None \<Rightarrow> (hs, e)
      | Some ci \<Rightarrow>
          (hs\<lparr>clients := AList.delete conn (clients hs),
              connectionCounter := connectionCounter hs - 1\<rparr>,
           unsubscribe_each (ci_topics ci) (pubsubClientId ci conn) e))"

text \<open>Whether a client is in a topic's subscriber map.\<close>

definition subscribed :: "engine \<Rightarrow> string \<Rightarrow> string \<Rightarrow> bool" where
  "subscribed e T c = (case map_of (topics e) T of None \<Rightarrow> False | Some t \<Rightarrow> has (subscribers t) c)"

section \<open>Concrete inputs\<close>

text \<open>Small concrete values on which the theorems below are instantiated.\<close>

definition open_ws :: ws where
  "open_ws = \<lparr>readyState = 1, sent = [], closeCalls = []\<rparr>"

definition closed_ws :: ws where
  "closed_ws = \<lparr>readyState = 3, sent = [], closeCalls = []\<rparr>"

definition heap0 :: heap where
  "heap0 = (\<lambda>w. open_ws)"

definition msg_of :: "string \<Rightarrow> message" where
  "msg_of i = \<lparr>msg_id = JStr i, payload = JObj [(''x'', JNum 1)], msg_ts = JUndefined\<rparr>"

definition ev_of :: "string \<Rightarrow> event" where
  "ev_of i = live_event ''orders'' 7 (stamp 7 (msg_of i))"

definition full_queue2 :: subscriber_queue where
  "full_queue2 = (new_queue ''alice'' 2 ''drop_oldest'')\<lparr>queue := [ev_of ''m1'', ev_of ''m2'']\<rparr>"

definition small_options :: options where
  "small_options = \<lparr>opt_maxMessagesPerTopic = Some 2, opt_maxQueueSize = Some 1,
                     opt_backpressurePolicy = None\<rparr>"

definition empty_topic :: topic where
  "empty_topic = \<lparr>subscribers = [], messages = [], createdAt = 1\<rparr>"

definition orders_engine :: engine where
  "orders_engine = snd (createTopic ''orders'' 1 (new_engine small_options))"

definition alice_topic :: topic where
  "alice_topic = \<lparr>subscribers = [(''alice'', 0)], messages = [], createdAt = 1\<rparr>"

definition subscribed_engine :: engine where
  "subscribed_engine = fst (snd (subscribe ''orders'' ''alice'' 0 0 2 orders_engine heap0))"

definition published_topic :: topic where
  "published_topic = \<lparr>subscribers = [], messages = [stamp 5 (msg_of ''m1''), stamp 6 (msg_of ''m2'')],
                       createdAt = 1\<rparr>"

definition published_engine :: engine where
  "published_engine =
     fst (publish_all ''orders'' [(msg_of ''m1'', 5), (msg_of ''m2'', 6)] orders_engine heap0)"

definition strict_options :: options where
  "strict_options = \<lparr>opt_maxMessagesPerTopic = Some 2, opt_maxQueueSize = Some 1,
                      opt_backpressurePolicy = Some ''disconnect''\<rparr>"

definition strict_engine :: engine where
  "strict_engine =
     fst (snd (publish ''orders'' (msg_of ''m1'') 5
       (fst (snd (subscribe ''orders'' ''alice'' 0 0 2
          (snd (createTopic ''orders'' 1 (new_engine strict_options))) heap0))) heap0))"

definition strict_topic :: topic where
  "strict_topic = \<lparr>subscribers = [(''alice'', 0)], messages = [stamp 5 (msg_of ''m1'')],
                    createdAt = 1\<rparr>"

definition strict_queue :: subscriber_queue where
  "strict_queue = \<lparr>clientId = ''alice'', maxSize = 1, policy = ''disconnect'',
                    queue = [live_event ''orders'' 5 (stamp 5 (msg_of ''m1''))],
                    droppedCount = 0, totalProcessed = 1\<rparr>"

text \<open>
  One connection that subscribes to \<^verbatim>\<open>orders\<close> as \<^verbatim>\<open>alice\<close> and then to \<^verbatim>\<open>news\<close>
  as \<^verbatim>\<open>bob\<close>, on an engine with queues of capacity 1 and the policy \<^verbatim>\<open>disconnect\<close>;
  two messages are then published to \<^verbatim>\<open>orders\<close> and the connection's close is
  handled.
\<close>

definition empty_handler :: handler where
  "empty_handler = \<lparr>clients = [], connectionCounter = 0\<rparr>"

definition sub_msg :: "string \<Rightarrow> string \<Rightarrow> inbound" where
  "sub_msg T cid = \<lparr>in_type = Some ''subscribe'', in_topic = Some T, in_message = None,
                     in_client_id = Some cid, in_last_n = None, in_request_id = JStr ''r''\<rparr>"

definition two_topics_engine :: engine where
  "two_topics_engine =
     snd (createTopic ''news'' 1 (snd (createTopic ''orders'' 1 (new_engine strict_options))))"

definition connected :: "handler \<times> heap" where
  "connected = handleConnection ''conn1'' 0 1 empty_handler heap0"

definition after_alice :: "handler \<times> engine \<times> heap" where
  "after_alice =
     handleMessage ''conn1'' (Object (sub_msg ''orders'' ''alice'')) 2
       (fst connected) two_topics_engine (snd connected)"

definition after_bob :: "handler \<times> engine \<times> heap" where
  "after_bob =
     handleMessage ''conn1'' (Object (sub_msg ''news'' ''bob'')) 3
       (fst after_alice) (fst (snd after_alice)) (snd (snd after_alice))"

definition after_overflow :: "engine \<times> heap" where
  "after_overflow =
     publish_all ''orders'' [(msg_of ''m1'', 5), (msg_of ''m2'', 6)]
       (fst (snd after_bob)) (snd (snd after_bob))"

definition after_close :: "handler \<times> engine" where
  "after_close = handleClose ''conn1'' (fst after_bob) (fst after_overflow)"

definition conn1_info :: "string list \<Rightarrow> string option \<Rightarrow> client_info" where
  "conn1_info ts i =
     \<lparr>ci_ws = 0, ci_topics = ts, connectedAt = 1, lastPing = 1, clientProvidedId = i\<rparr>"

section \<open>SubscriberQueue: backpressure\<close>

lemma add_drop_oldest_full:
  assumes "policy q \<noteq> ''disconnect''" "maxSize q \<le> int (length (queue q))"
  shows "add m w q h =
     (\<lparr>success = True, action = ''dropped_oldest'', reason = None,
        droppedMessage = shift_head (queue q), res_droppedCount = droppedCount q + 1\<rparr>,
      q\<lparr>queue := tl (queue q) @ [m], droppedCount := droppedCount q + 1,
        totalProcessed := totalProcessed q + 1\<rparr>, h)"
  using assms by (simp add: add_def)

lemma add_space:
  assumes "int (length (queue q)) < maxSize q"
  shows "add m w q h =
     (\<lparr>success = True, action = ''added'', reason = None,
        droppedMessage = None, res_droppedCount = droppedCount q\<rparr>,
      q\<lparr>queue := queue q @ [m], totalProcessed := totalProcessed q + 1\<rparr>, h)"
  using assms by (simp add: add_def)

lemma add_disconnect_full:
  assumes "policy q = ''disconnect''" "maxSize q \<le> int (length (queue q))"
  shows "add m w q h =
     (\<lparr>success = False, action = ''disconnected'', reason = Some ''SLOW_CONSUMER'',
        droppedMessage = None, res_droppedCount = droppedCount q\<rparr>,
      q, h(w := ws_close 1013 ''SLOW_CONSUMER'' (h w)))"
  using assms by (simp add: add_def)

text \<open>
  A run of adds on a queue that is not over its capacity keeps the last \<open>K\<close> elements
  of what was queued and what was added, and counts one drop per element pushed out.
\<close>

lemma add_all_drop_oldest:
  assumes "policy q \<noteq> ''disconnect''" "0 < K" "maxSize q = int K" "length (queue q) \<le> K"
  shows "add_all ms w q h =
     (q\<lparr>queue := drop (length (queue q) + length ms - K) (queue q @ ms),
        droppedCount := droppedCount q + (length (queue q) + length ms - K),
        totalProcessed := totalProcessed q + length ms\<rparr>, h)"
  using assms
proof (induction ms arbitrary: q)
  case Nil
  then show ?case by simp
next
  case (Cons m ms)
  show ?case
  proof (cases "length (queue q) = K")
    case True
    let ?q' = "q\<lparr>queue := tl (queue q) @ [m], droppedCount := droppedCount q + 1,
        totalProcessed := totalProcessed q + 1\<rparr>"
    from True Cons.prems have ne: "queue q \<noteq> []" by auto
    have step: "add m w q h = (\<lparr>success = True, action = ''dropped_oldest'', reason = None,
        droppedMessage = shift_head (queue q), res_droppedCount = droppedCount q + 1\<rparr>, ?q', h)"
      using add_drop_oldest_full[of q m w h] Cons.prems True by simp
    have len: "length (queue ?q') = K" using True ne Cons.prems(2) by simp
    have ih: "add_all ms w ?q' h =
        (?q'\<lparr>queue := drop (length (queue ?q') + length ms - K) (queue ?q' @ ms),
            droppedCount := droppedCount ?q' + (length (queue ?q') + length ms - K),
            totalProcessed := totalProcessed ?q' + length ms\<rparr>, h)"
      by (rule Cons.IH) (use Cons.prems len in simp_all)
    obtain x xs where q: "queue q = x # xs" using ne by (cases "queue q") auto
    have K: "K = Suc (length xs)" using True q by simp
    have e1: "drop (length (queue ?q') + length ms - K) (queue ?q' @ ms) =
              drop (length (queue q) + length (m # ms) - K) (queue q @ m # ms)"
      unfolding K using q by simp
    have e2: "droppedCount ?q' + (length (queue ?q') + length ms - K) =
              droppedCount q + (length (queue q) + length (m # ms) - K)"
      unfolding K using q by simp
    have e3: "totalProcessed ?q' + length ms = totalProcessed q + length (m # ms)" by simp
    have "add_all (m # ms) w q h = add_all ms w ?q' h" using step by simp
    also have "\<dots> =
        (?q'\<lparr>queue := drop (length (queue q) + length (m # ms) - K) (queue q @ m # ms),
            droppedCount := droppedCount q + (length (queue q) + length (m # ms) - K),
            totalProcessed := totalProcessed q + length (m # ms)\<rparr>, h)"
      unfolding ih e1 e2 e3 ..
    finally show ?thesis by simp
  next
    case False
    let ?q' = "q\<lparr>queue := queue q @ [m], totalProcessed := totalProcessed q + 1\<rparr>"
    from False Cons.prems have lt: "length (queue q) < K" by simp
    have step: "add m w q h = (\<lparr>success = True, action = ''added'', reason = None,
        droppedMessage = None, res_droppedCount = droppedCount q\<rparr>, ?q', h)"
      using add_space[of q m w h] Cons.prems lt by simp
    have ih: "add_all ms w ?q' h =
        (?q'\<lparr>queue := drop (length (queue ?q') + length ms - K) (queue ?q' @ ms),
            droppedCount := droppedCount ?q' + (length (queue ?q') + length ms - K),
            totalProcessed := totalProcessed ?q' + length ms\<rparr>, h)"
      by (rule Cons.IH) (use Cons.prems lt in simp_all)
    show ?thesis using step ih by simp
  qed
qed

text \<open>
  Claim C1. On a queue of capacity \<open>K \<ge> 1\<close> with policy \<^verbatim>\<open>drop_oldest\<close> whose length
  is \<open>K\<close>, \<open>add\<close> removes the head, appends the new message at the tail, increments
  \<open>droppedCount\<close> and reports success (action \<^verbatim>\<open>dropped_oldest\<close>, carrying the evicted
  head); the connection is left alone. After \<open>K + 1\<close> adds on a new queue, with no
  \<open>getNext\<close> in between, the queue holds the last \<open>K\<close> messages in order and
  \<open>droppedCount\<close> is 1.
\<close>

theorem drop_oldest_backpressure:
  assumes "policy q = ''drop_oldest''" and "0 < K" and "maxSize q = int K"
  shows "(length (queue q) = K \<longrightarrow>
           (case add m w q h of (r, q', h') \<Rightarrow>
              droppedMessage r = Some (hd (queue q)) \<and> queue q' = tl (queue q) @ [m] \<and>
              droppedCount q' = droppedCount q + 1 \<and>
              success r \<and> action r = ''dropped_oldest'' \<and> h' = h)) \<and>
         (length ms = K + 1 \<longrightarrow>
           (case add_all ms w (new_queue c (int K) ''drop_oldest'') h of (q', h') \<Rightarrow>
              queue q' = drop 1 ms \<and> length (queue q') = K \<and> droppedCount q' = 1))"
proof -
  have p: "policy q \<noteq> ''disconnect''" using assms(1) by simp
  have a: "case add m w q h of (r, q', h') \<Rightarrow>
              droppedMessage r = Some (hd (queue q)) \<and> queue q' = tl (queue q) @ [m] \<and>
              droppedCount q' = droppedCount q + 1 \<and>
              success r \<and> action r = ''dropped_oldest'' \<and> h' = h"
    if "length (queue q) = K"
  proof -
    from that assms(2) obtain x xs where "queue q = x # xs" by (cases "queue q") auto
    then show ?thesis
      using add_drop_oldest_full[of q m w h] p that assms(3) by (simp add: shift_head_def)
  qed
  have b: "case add_all ms w (new_queue c (int K) ''drop_oldest'') h of (q', h') \<Rightarrow>
              queue q' = drop 1 ms \<and> length (queue q') = K \<and> droppedCount q' = 1"
    if "length ms = K + 1"
    using add_all_drop_oldest[of "new_queue c (int K) ''drop_oldest''" K ms w h] assms(2) that
    by (simp add: new_queue_def)
  show ?thesis using a b by blast
qed

theorem drop_oldest_backpressure_witness:
  "policy full_queue2 = ''drop_oldest'' \<and> (0::nat) < 2 \<and> maxSize full_queue2 = int 2 \<and>
   length (queue full_queue2) = 2 \<and> length [ev_of ''m1'', ev_of ''m2'', ev_of ''m3''] = 2 + 1 \<and>
   (case add (ev_of ''m3'') 0 full_queue2 heap0 of (r, q', h') \<Rightarrow>
      droppedMessage r = Some (ev_of ''m1'') \<and> queue q' = [ev_of ''m2'', ev_of ''m3''] \<and>
      droppedCount q' = 1 \<and> success r \<and> action r = ''dropped_oldest'' \<and> h' = heap0) \<and>
   (case add_all [ev_of ''m1'', ev_of ''m2'', ev_of ''m3''] 0 (new_queue ''alice'' (int 2) ''drop_oldest'') heap0
      of (q', h') \<Rightarrow>
      queue q' = [ev_of ''m2'', ev_of ''m3''] \<and> length (queue q') = 2 \<and> droppedCount q' = 1)"
proof -
  have h1: "policy full_queue2 = ''drop_oldest''" by (simp add: full_queue2_def new_queue_def)
  have h2: "(0::nat) < 2" by simp
  have h3: "maxSize full_queue2 = int 2" by (simp add: full_queue2_def new_queue_def)
  have q: "queue full_queue2 = [ev_of ''m1'', ev_of ''m2'']" by (simp add: full_queue2_def)
  have d: "droppedCount full_queue2 = 0" by (simp add: full_queue2_def new_queue_def)
  show ?thesis
    using drop_oldest_backpressure[OF h1 h2 h3, where m = "ev_of ''m3''" and w = 0 and h = heap0
        and ms = "[ev_of ''m1'', ev_of ''m2'', ev_of ''m3'']" and c = "''alice''"] h1 h3 q d
    by (simp split: prod.splits)
qed

section \<open>The ring buffer of a topic\<close>

lemma ring_push_drop:
  assumes "length ms \<le> K"
  shows "ring_push (int K) m ms = drop (length ms + 1 - K) (ms @ [m])"
proof (cases "length ms = K")
  case True
  then have "length ms + 1 - K = 1" by simp
  then have "drop (length ms + 1 - K) (ms @ [m]) = tl (ms @ [m])"
    by (simp only: One_nat_def drop_Suc drop_0)
  moreover have "ring_push (int K) m ms = tl (ms @ [m])"
    using True by (simp add: ring_push_def)
  ultimately show ?thesis by simp
next
  case False
  then have "length ms + 1 - K = 0" using assms by simp
  then show ?thesis using False assms by (simp add: ring_push_def)
qed

lemma drop_twice_window:
  fixes xs ys :: "'a list"
  assumes "length xs \<le> K"
  shows "drop (length (drop (length xs + 1 - K) (xs @ [x])) + length ys - K)
              (drop (length xs + 1 - K) (xs @ [x]) @ ys) =
         drop (length xs + length (x # ys) - K) (xs @ x # ys)"
proof -
  let ?zs = "xs @ [x]"
  let ?d = "length xs + 1 - K"
  have d: "?d \<le> length ?zs" by simp
  have z: "?d - length ?zs = 0" using d by (simp only: diff_is_0_eq)
  have "drop ?d (?zs @ ys) = drop ?d ?zs @ drop (?d - length ?zs) ys" by (rule drop_append)
  then have a: "drop ?d ?zs @ ys = drop ?d (?zs @ ys)" by (simp only: z drop_0)
  have b: "length (drop ?d ?zs) + length ys - K + ?d = length xs + length (x # ys) - K"
    using assms by simp
  have "drop (length (drop ?d ?zs) + length ys - K) (drop ?d ?zs @ ys) =
        drop (length (drop ?d ?zs) + length ys - K + ?d) (?zs @ ys)"
    by (simp only: a drop_drop)
  also have "\<dots> = drop (length xs + length (x # ys) - K) (xs @ x # ys)"
    by (simp only: b) simp
  finally show ?thesis .
qed

lemma publish_valid_topics:
  assumes "map_of (topics e) T = Some t" "valid_message m"
  shows "map_of (topics (fst (snd (publish T m now e h)))) T =
           Some (t\<lparr>messages := ring_push (maxMessagesPerTopic e) (stamp now m) (messages t)\<rparr>)"
    and "maxMessagesPerTopic (fst (snd (publish T m now e h))) = maxMessagesPerTopic e"
    and "\<exists>ok. fst (publish T m now e h) = Inr ok"
  using assms by (auto simp: publish_def valid_message_def update_conv' split: prod.splits)

lemma publish_all_messages:
  assumes "map_of (topics e) T = Some t" "length (messages t) \<le> K"
    "maxMessagesPerTopic e = int K" "\<forall>p \<in> set ps. valid_message (fst p)"
  shows "\<exists>t'. map_of (topics (fst (publish_all T ps e h))) T = Some t' \<and>
           messages t' = drop (length (messages t) + length ps - K)
                              (messages t @ map (\<lambda>p. stamp (snd p) (fst p)) ps)"
  using assms
proof (induction ps arbitrary: e h t)
  case Nil
  then show ?case by simp
next
  case (Cons p ps)
  obtain m now where p: "p = (m, now)" by (cases p)
  obtain r e' h' where pub: "publish T m now e h = (r, e', h')" by (cases "publish T m now e h")
  let ?t' = "t\<lparr>messages := ring_push (maxMessagesPerTopic e) (stamp now m) (messages t)\<rparr>"
  have v: "valid_message m" using Cons.prems(4) p by simp
  have t': "map_of (topics e') T = Some ?t'"
    using publish_valid_topics(1)[OF Cons.prems(1) v, of now h] pub by simp
  have cap: "maxMessagesPerTopic e' = int K"
    using publish_valid_topics(2)[OF Cons.prems(1) v, of now h] pub Cons.prems(3) by simp
  have ms': "messages ?t' = drop (length (messages t) + 1 - K) (messages t @ [stamp now m])"
    using ring_push_drop[OF Cons.prems(2)] Cons.prems(3) by simp
  have len': "length (messages ?t') \<le> K" unfolding ms' using Cons.prems(2) by simp
  have rest: "\<forall>p \<in> set ps. valid_message (fst p)" using Cons.prems(4) by simp
  from Cons.IH[OF t' len' cap rest, of h']
  obtain t'' where t'': "map_of (topics (fst (publish_all T ps e' h'))) T = Some t''"
    and ms'': "messages t'' = drop (length (messages ?t') + length ps - K)
                              (messages ?t' @ map (\<lambda>p. stamp (snd p) (fst p)) ps)"
    by blast
  have "messages t'' = drop (length (messages t) + length (p # ps) - K)
                              (messages t @ map (\<lambda>p. stamp (snd p) (fst p)) (p # ps))"
    unfolding ms'' ms'
    using drop_twice_window[OF Cons.prems(2), of "stamp now m" "map (\<lambda>p. stamp (snd p) (fst p)) ps"] p
    by simp
  then show ?case using t'' pub p by simp
qed

lemma ring_push_bound:
  "int (length ms) \<le> K \<Longrightarrow> int (length (ring_push K m ms)) \<le> K"
  by (auto simp: ring_push_def)

lemma ring_bounded_createTopic:
  "ring_bounded e \<Longrightarrow> 0 \<le> maxMessagesPerTopic e \<Longrightarrow> ring_bounded (snd (createTopic n now e))"
  by (auto simp: ring_bounded_def createTopic_def update_conv' split: if_splits)

lemma ring_bounded_deleteTopic:
  "ring_bounded e \<Longrightarrow> ring_bounded (fst (snd (deleteTopic n e h)))"
  by (auto simp: ring_bounded_def deleteTopic_def delete_conv' split: option.splits if_splits)

lemma ring_bounded_subscribe:
  "ring_bounded e \<Longrightarrow> ring_bounded (fst (snd (subscribe T c w n now e h)))"
  by (auto simp: ring_bounded_def subscribe_def Let_def update_conv' split: option.splits if_splits)

lemma ring_bounded_unsubscribe:
  "ring_bounded e \<Longrightarrow> ring_bounded (snd (unsubscribe T c e))"
  by (auto simp: ring_bounded_def unsubscribe_def Let_def update_conv' split: option.splits if_splits)

lemma ring_bounded_publish:
  "ring_bounded e \<Longrightarrow> ring_bounded (fst (snd (publish T m now e h)))"
  by (auto simp: ring_bounded_def publish_def update_conv' ring_push_bound
      split: option.splits if_splits prod.splits)

lemma ring_bounded_unsubscribe_each:
  "ring_bounded e \<Longrightarrow> ring_bounded (unsubscribe_each ts c e)"
  by (induction ts arbitrary: e) (simp_all add: ring_bounded_unsubscribe)

lemma ring_bounded_disconnectClient:
  "ring_bounded e \<Longrightarrow> ring_bounded (snd (disconnectClient c e))"
  by (simp add: disconnectClient_def ring_bounded_unsubscribe_each split: option.splits)

lemma ring_bounded_shutdown: "ring_bounded (shutdown e)"
  by (simp add: ring_bounded_def shutdown_def)

lemma capacity_unsubscribe [simp]:
  "maxMessagesPerTopic (snd (unsubscribe T c e)) = maxMessagesPerTopic e"
  by (simp add: unsubscribe_def Let_def split: option.splits)

lemma capacity_unsubscribe_each [simp]:
  "maxMessagesPerTopic (unsubscribe_each ts c e) = maxMessagesPerTopic e"
  by (induction ts arbitrary: e) simp_all

lemma capacity_disconnect_each [simp]:
  "maxMessagesPerTopic (disconnect_each cs e) = maxMessagesPerTopic e"
  by (induction cs arbitrary: e) (simp_all add: disconnectClient_def split: option.splits)

lemma capacity_kept:
  "maxMessagesPerTopic (snd (createTopic n now e)) = maxMessagesPerTopic e"
  "maxMessagesPerTopic (fst (snd (deleteTopic n e h))) = maxMessagesPerTopic e"
  "maxMessagesPerTopic (fst (snd (subscribe T c w lastN now e h))) = maxMessagesPerTopic e"
  "maxMessagesPerTopic (fst (snd (publish T m now e h))) = maxMessagesPerTopic e"
  "maxMessagesPerTopic (snd (disconnectClient c e)) = maxMessagesPerTopic e"
  "maxMessagesPerTopic (shutdown e) = maxMessagesPerTopic e"
  by (simp_all add: createTopic_def deleteTopic_def subscribe_def Let_def publish_def
      disconnectClient_def shutdown_def split: option.splits prod.splits)

lemma reachable_ring_bounded:
  "reachable e \<Longrightarrow> 0 \<le> maxMessagesPerTopic e \<Longrightarrow> ring_bounded e"
proof (induction rule: reachable.induct)
  case (constructed opts)
  show ?case by (simp add: ring_bounded_def new_engine_def)
next
  case (after_createTopic e n now)
  then show ?case by (simp add: capacity_kept ring_bounded_createTopic)
next
  case (after_deleteTopic e n h)
  then show ?case by (simp add: capacity_kept ring_bounded_deleteTopic)
next
  case (after_subscribe e T c w lastN now h)
  then show ?case by (simp add: capacity_kept ring_bounded_subscribe)
next
  case (after_unsubscribe e T c)
  then show ?case by (simp add: ring_bounded_unsubscribe)
next
  case (after_publish e T m now h)
  then show ?case by (simp add: capacity_kept ring_bounded_publish)
next
  case (after_disconnectClient e c)
  then show ?case by (simp add: capacity_kept ring_bounded_disconnectClient)
next
  case (after_shutdown e)
  show ?case by (rule ring_bounded_shutdown)
qed

lemma orders_engine_eq:
  "orders_engine = \<lparr>topics = [(''orders'', empty_topic)], clientTopics = [], subscriberQueues = [],
      maxMessagesPerTopic = 2, maxQueueSize = 1, backpressurePolicy = ''drop_oldest''\<rparr>"
  by (simp add: orders_engine_def createTopic_def new_engine_def small_options_def has_def
      num_or_def str_or_def empty_topic_def)

lemma reachable_orders_engine: "reachable orders_engine"
proof -
  have "reachable (new_engine small_options)" by (rule reachable.constructed)
  then show ?thesis unfolding orders_engine_def by (rule reachable.after_createTopic)
qed

text \<open>
  Claim C3. With capacity \<open>K\<close>, no ring buffer of a reachable state holds more than
  \<open>K\<close> messages. A buffer that holds at most \<open>K\<close> messages still holds at most \<open>K\<close>
  after any run of successful publishes, and what it holds is the last \<open>K\<close> of its old
  content followed by the published messages (each as stored, that is with its timestamp
  filled in). From an empty buffer, \<open>N\<close> publishes leave \<open>min N K\<close> messages: the last
  \<open>K\<close> published, oldest first.
\<close>

theorem ring_buffer_bound:
  assumes "map_of (topics e) T = Some t" and "maxMessagesPerTopic e = int K"
    and "\<forall>p \<in> set ps. valid_message (fst p)"
  shows "(reachable e \<longrightarrow> length (messages t) \<le> K) \<and>
         (length (messages t) \<le> K \<longrightarrow>
           (\<exists>t'. map_of (topics (fst (publish_all T ps e h))) T = Some t' \<and>
              length (messages t') \<le> K \<and>
              messages t' = drop (length (messages t) + length ps - K)
                                 (messages t @ map (\<lambda>p. stamp (snd p) (fst p)) ps) \<and>
              (messages t = [] \<longrightarrow>
                 length (messages t') = min (length ps) K \<and>
                 messages t' = drop (length ps - K) (map (\<lambda>p. stamp (snd p) (fst p)) ps))))"
proof -
  have a: "length (messages t) \<le> K" if "reachable e"
    using reachable_ring_bounded[OF that] assms(1,2) by (auto simp: ring_bounded_def)
  have b: "\<exists>t'. map_of (topics (fst (publish_all T ps e h))) T = Some t' \<and>
              length (messages t') \<le> K \<and>
              messages t' = drop (length (messages t) + length ps - K)
                                 (messages t @ map (\<lambda>p. stamp (snd p) (fst p)) ps) \<and>
              (messages t = [] \<longrightarrow>
                 length (messages t') = min (length ps) K \<and>
                 messages t' = drop (length ps - K) (map (\<lambda>p. stamp (snd p) (fst p)) ps))"
    if len: "length (messages t) \<le> K"
  proof -
    from publish_all_messages[OF assms(1) len assms(2,3), of h]
    obtain t' where t': "map_of (topics (fst (publish_all T ps e h))) T = Some t'"
      and ms: "messages t' = drop (length (messages t) + length ps - K)
                                (messages t @ map (\<lambda>p. stamp (snd p) (fst p)) ps)"
      by blast
    have "length (messages t') \<le> K" unfolding ms using len by simp
    moreover have "length (messages t') = min (length ps) K" if "messages t = []"
      unfolding ms using that by simp
    moreover have "messages t' = drop (length ps - K) (map (\<lambda>p. stamp (snd p) (fst p)) ps)"
      if "messages t = []"
      unfolding ms using that by simp
    ultimately show ?thesis using t' ms by blast
  qed
  show ?thesis using a b by blast
qed

theorem ring_buffer_bound_witness:
  "length (messages empty_topic) \<le> 2 \<and>
   (\<exists>t'. map_of (topics (fst (publish_all ''orders''
             [(msg_of ''m1'', 5), (msg_of ''m2'', 6), (msg_of ''m3'', 7)] orders_engine heap0))) ''orders''
           = Some t' \<and>
         length (messages t') \<le> 2 \<and> length (messages t') = 2 \<and>
         messages t' = [stamp 6 (msg_of ''m2''), stamp 7 (msg_of ''m3'')])"
proof -
  have h1: "map_of (topics orders_engine) ''orders'' = Some empty_topic"
    by (simp add: orders_engine_eq)
  have h2: "maxMessagesPerTopic orders_engine = int 2" by (simp add: orders_engine_eq)
  have h3: "\<forall>p \<in> set [(msg_of ''m1'', 5), (msg_of ''m2'', 6), (msg_of ''m3'', 7)]. valid_message (fst p)"
    by (simp add: valid_message_def msg_of_def)
  have e: "messages empty_topic = []" by (simp add: empty_topic_def)
  note u = ring_buffer_bound[OF h1 h2 h3, of heap0]
  have 1: "length (messages empty_topic) \<le> 2" using u reachable_orders_engine by simp
  have 2: "\<exists>t'. map_of (topics (fst (publish_all ''orders''
             [(msg_of ''m1'', 5), (msg_of ''m2'', 6), (msg_of ''m3'', 7)] orders_engine heap0))) ''orders''
           = Some t' \<and>
         length (messages t') \<le> 2 \<and> length (messages t') = 2 \<and>
         messages t' = [stamp 6 (msg_of ''m2''), stamp 7 (msg_of ''m3'')]"
    using u 1 e by (auto simp del: publish_all.simps)
  show ?thesis using 1 2 by (rule conjI)
qed

section \<open>Rejected operations\<close>

text \<open>
  Claim C10. \<open>publish\<close> tests the truthiness of \<^verbatim>\<open>id\<close> and \<^verbatim>\<open>payload\<close>, not their
  presence: on an existing topic a message whose id or payload is falsy is rejected with
  INVALID_MESSAGE, and the payloads \<open>0\<close>, the empty string, \<open>false\<close> and \<open>null\<close> are
  falsy.
\<close>

theorem falsy_field_is_invalid_message:
  assumes "map_of (topics e) T = Some t" and "\<not> truthy (msg_id m) \<or> \<not> truthy (payload m)"
  shows "publish T m now e h = (Inl ''INVALID_MESSAGE'', e, h) \<and>
         \<not> truthy (JNum 0) \<and> \<not> truthy (JStr '''') \<and> \<not> truthy (JBool False) \<and> \<not> truthy JNull"
  using assms by (auto simp: publish_def)

theorem falsy_field_is_invalid_message_witness:
  "publish ''orders'' \<lparr>msg_id = JStr ''m1'', payload = JNum 0, msg_ts = JUndefined\<rparr> 5
     orders_engine heap0 = (Inl ''INVALID_MESSAGE'', orders_engine, heap0)"
proof -
  have h1: "map_of (topics orders_engine) ''orders'' = Some empty_topic"
    by (simp add: orders_engine_eq)
  have h2: "\<not> truthy (msg_id \<lparr>msg_id = JStr ''m1'', payload = JNum 0, msg_ts = JUndefined\<rparr>) \<or>
            \<not> truthy (payload \<lparr>msg_id = JStr ''m1'', payload = JNum 0, msg_ts = JUndefined\<rparr>)"
    by simp
  show ?thesis
    using falsy_field_is_invalid_message[OF h1 h2, of 5 heap0] by simp
qed

text \<open>
  Claim C9. An operation that reports a failure returns the engine (and the connections)
  it was given: \<open>publish\<close> on a missing topic or with an invalid message, \<open>createTopic\<close>
  on an existing name, \<open>subscribe\<close> on a missing topic or for a client that is already
  subscribed, and \<open>unsubscribe\<close> of a pair that is not subscribed.
\<close>

theorem failed_operation_changes_nothing:
  shows "(\<not> has (topics e) T \<longrightarrow> publish T m now e h = (Inl ''TOPIC_NOT_FOUND'', e, h)) \<and>
         (has (topics e) T \<and> \<not> valid_message m \<longrightarrow>
            publish T m now e h = (Inl ''INVALID_MESSAGE'', e, h)) \<and>
         (\<forall>err. fst (publish T m now e h) = Inl err \<longrightarrow> snd (publish T m now e h) = (e, h)) \<and>
         (has (topics e) T \<longrightarrow> createTopic T now e = (False, e)) \<and>
         (\<not> fst (createTopic T now e) \<longrightarrow> snd (createTopic T now e) = e) \<and>
         (\<not> has (topics e) T \<longrightarrow> subscribe T c w n now e h = (Inl ''TOPIC_NOT_FOUND'', e, h)) \<and>
         ((\<exists>t. map_of (topics e) T = Some t \<and> has (subscribers t) c) \<longrightarrow>
            subscribe T c w n now e h = (Inl ''ALREADY_SUBSCRIBED'', e, h)) \<and>
         (\<forall>err. fst (subscribe T c w n now e h) = Inl err \<longrightarrow>
            snd (subscribe T c w n now e h) = (e, h)) \<and>
         (\<not> (\<exists>t. map_of (topics e) T = Some t \<and> has (subscribers t) c) \<longrightarrow>
            unsubscribe T c e = (False, e)) \<and>
         (\<not> fst (unsubscribe T c e) \<longrightarrow> snd (unsubscribe T c e) = e)"
proof -
  have p1: "\<not> has (topics e) T \<Longrightarrow> publish T m now e h = (Inl ''TOPIC_NOT_FOUND'', e, h)"
    by (simp add: publish_def has_def)
  have p2: "has (topics e) T \<and> \<not> valid_message m \<Longrightarrow>
            publish T m now e h = (Inl ''INVALID_MESSAGE'', e, h)"
    by (auto simp: publish_def has_def valid_message_def)
  have p3: "fst (publish T m now e h) = Inl err \<Longrightarrow> snd (publish T m now e h) = (e, h)" for err
    by (auto simp: publish_def split: option.splits if_splits prod.splits)
  have c1: "has (topics e) T \<Longrightarrow> createTopic T now e = (False, e)"
    by (simp add: createTopic_def)
  have c2: "\<not> fst (createTopic T now e) \<Longrightarrow> snd (createTopic T now e) = e"
    by (simp add: createTopic_def split: if_splits)
  have s1: "\<not> has (topics e) T \<Longrightarrow> subscribe T c w n now e h = (Inl ''TOPIC_NOT_FOUND'', e, h)"
    by (simp add: subscribe_def has_def)
  have s2: "\<exists>t. map_of (topics e) T = Some t \<and> has (subscribers t) c \<Longrightarrow>
            subscribe T c w n now e h = (Inl ''ALREADY_SUBSCRIBED'', e, h)"
    by (auto simp: subscribe_def)
  have s3: "fst (subscribe T c w n now e h) = Inl err \<Longrightarrow>
            snd (subscribe T c w n now e h) = (e, h)" for err
    by (auto simp: subscribe_def Let_def split: option.splits if_splits)
  have u1: "\<not> (\<exists>t. map_of (topics e) T = Some t \<and> has (subscribers t) c) \<Longrightarrow>
            unsubscribe T c e = (False, e)"
    by (auto simp: unsubscribe_def split: option.splits)
  have u2: "\<not> fst (unsubscribe T c e) \<Longrightarrow> snd (unsubscribe T c e) = e"
    by (auto simp: unsubscribe_def Let_def split: option.splits if_splits)
  show ?thesis using p1 p2 p3 c1 c2 s1 s2 s3 u1 u2 by blast
qed

lemma subscribed_engine_eq:
  "subscribed_engine =
     \<lparr>topics = [(''orders'', alice_topic)], clientTopics = [(''alice'', [''orders''])],
      subscriberQueues = [(''alice'', new_queue ''alice'' 1 ''drop_oldest'')],
      maxMessagesPerTopic = 2, maxQueueSize = 1, backpressurePolicy = ''drop_oldest''\<rparr>"
  by (simp add: subscribed_engine_def orders_engine_eq subscribe_def has_def empty_topic_def
      alice_topic_def set_add_def)

theorem failed_operation_changes_nothing_witness:
  "publish ''ghost'' (msg_of ''m1'') 5 subscribed_engine heap0 =
     (Inl ''TOPIC_NOT_FOUND'', subscribed_engine, heap0) \<and>
   publish ''orders'' \<lparr>msg_id = JUndefined, payload = JNum 1, msg_ts = JUndefined\<rparr> 5
     subscribed_engine heap0 = (Inl ''INVALID_MESSAGE'', subscribed_engine, heap0) \<and>
   createTopic ''orders'' 5 subscribed_engine = (False, subscribed_engine) \<and>
   subscribe ''ghost'' ''alice'' 0 3 5 subscribed_engine heap0 =
     (Inl ''TOPIC_NOT_FOUND'', subscribed_engine, heap0) \<and>
   subscribe ''orders'' ''alice'' 0 3 5 subscribed_engine heap0 =
     (Inl ''ALREADY_SUBSCRIBED'', subscribed_engine, heap0) \<and>
   unsubscribe ''orders'' ''bob'' subscribed_engine = (False, subscribed_engine)"
proof -
  let ?bad = "\<lparr>msg_id = JUndefined, payload = JNum 1, msg_ts = JUndefined\<rparr>"
  have g: "\<not> has (topics subscribed_engine) ''ghost''"
    by (simp add: subscribed_engine_eq has_def)
  have o: "has (topics subscribed_engine) ''orders''"
    by (simp add: subscribed_engine_eq has_def)
  have b: "\<not> valid_message ?bad" by (simp add: valid_message_def)
  have a: "\<exists>t. map_of (topics subscribed_engine) ''orders'' = Some t \<and> has (subscribers t) ''alice''"
    by (simp add: subscribed_engine_eq has_def alice_topic_def)
  have n: "\<not> (\<exists>t. map_of (topics subscribed_engine) ''orders'' = Some t \<and> has (subscribers t) ''bob'')"
    by (simp add: subscribed_engine_eq has_def alice_topic_def)
  note ghost = failed_operation_changes_nothing[of subscribed_engine "''ghost''" "msg_of ''m1''" 5
      heap0 "''alice''" 0 3]
  note alice = failed_operation_changes_nothing[of subscribed_engine "''orders''" ?bad 5
      heap0 "''alice''" 0 3]
  note bob = failed_operation_changes_nothing[of subscribed_engine "''orders''" ?bad 5
      heap0 "''bob''" 0 3]
  have 1: "publish ''ghost'' (msg_of ''m1'') 5 subscribed_engine heap0 =
             (Inl ''TOPIC_NOT_FOUND'', subscribed_engine, heap0)"
    using ghost g by simp
  have 2: "publish ''orders'' ?bad 5 subscribed_engine heap0 =
             (Inl ''INVALID_MESSAGE'', subscribed_engine, heap0)"
    using alice o b by simp
  have 3: "createTopic ''orders'' 5 subscribed_engine = (False, subscribed_engine)"
    using alice o by simp
  have 4: "subscribe ''ghost'' ''alice'' 0 3 5 subscribed_engine heap0 =
             (Inl ''TOPIC_NOT_FOUND'', subscribed_engine, heap0)"
    using ghost g by simp
  have 5: "subscribe ''orders'' ''alice'' 0 3 5 subscribed_engine heap0 =
             (Inl ''ALREADY_SUBSCRIBED'', subscribed_engine, heap0)"
    using alice a by simp
  have 6: "unsubscribe ''orders'' ''bob'' subscribed_engine = (False, subscribed_engine)"
    using bob n by simp
  show ?thesis using 1 2 3 4 5 6 by simp
qed

section \<open>Replay on subscribe\<close>

lemma replay_messages_open:
  "readyState (h w) = 1 \<Longrightarrow>
     replay_messages T w now ms h =
       h(w := (h w)\<lparr>sent := sent (h w) @ map (\<lambda>m. Event (replay_event T now m)) ms\<rparr>)"
proof (induction ms arbitrary: h)
  case Nil
  then show ?case by simp
next
  case (Cons m ms)
  let ?h1 = "h(w := (h w)\<lparr>sent := sent (h w) @ [Event (replay_event T now m)]\<rparr>)"
  have s: "snd (sendToClient w (Event (replay_event T now m)) h) = ?h1"
    using Cons.prems by (simp add: sendToClient_def)
  have o: "readyState (?h1 w) = 1" using Cons.prems by simp
  have "replay_messages T w now (m # ms) h = replay_messages T w now ms ?h1"
    by (simp only: replay_messages.simps s)
  also have "\<dots> = ?h1(w := (?h1 w)\<lparr>sent := sent (?h1 w) @
                 map (\<lambda>m. Event (replay_event T now m)) ms\<rparr>)"
    using o by (rule Cons.IH[of ?h1])
  also have "\<dots> = h(w := (h w)\<lparr>sent := sent (h w) @
                 map (\<lambda>m. Event (replay_event T now m)) (m # ms)\<rparr>)"
    by simp
  finally show ?case .
qed

lemma replay_messages_not_open:
  "readyState (h w) \<noteq> 1 \<Longrightarrow> replay_messages T w now ms h = h"
  by (induction ms arbitrary: h) (simp_all add: sendToClient_def)

lemma slice_last_length: "0 < n \<Longrightarrow> length (slice_last n xs) = min (nat n) (length xs)"
  by (simp add: slice_last_def)

lemma subscribe_ok_effect:
  assumes "subscribe T c w n now e h = (Inr (), e', h')" and "map_of (topics e) T = Some t"
  shows "h' = (if 0 < n \<and> messages t \<noteq> [] then replay_messages T w now (slice_last n (messages t)) h else h)"
    and "subscriberQueues e' =
           (if has (subscriberQueues e) c then subscriberQueues e
            else AList.update c (new_queue c (maxQueueSize e) (backpressurePolicy e)) (subscriberQueues e))"
  using assms by (auto simp: subscribe_def Let_def split: if_splits)

lemma published_engine_eq:
  "published_engine = \<lparr>topics = [(''orders'', published_topic)], clientTopics = [],
      subscriberQueues = [], maxMessagesPerTopic = 2, maxQueueSize = 1,
      backpressurePolicy = ''drop_oldest''\<rparr>"
  by (simp add: published_engine_def orders_engine_eq publish_def empty_topic_def msg_of_def
      ring_push_def published_topic_def)

lemma replay_messages_foldl:
  "replay_messages T w now ms h =
     foldl (\<lambda>g m. snd (sendToClient w (Event (replay_event T now m)) g)) h ms"
  by (induction ms arbitrary: h) simp_all

text \<open>
  Claim C5, as the code has it. A successful \<open>subscribe\<close> with \<open>lastN > 0\<close> makes one direct
  \<open>sendToClient\<close> call on the subscriber's connection for each of the last
  \<open>min lastN (length buffer)\<close> entries of the ring buffer, in buffer order, each as an
  event tagged \<^verbatim>\<open>replay: true\<close>; on an OPEN connection exactly these frames are
  written to it, and no other connection is touched. The queues of the other clients are
  unchanged, and the subscriber's own queue is what it was, or a new empty queue with both
  counters at 0: nothing replayed is enqueued or counted.
\<close>

theorem replay_on_subscribe:
  assumes "subscribe T c w n now e h = (Inr (), e', h')" and "0 < n"
    and "map_of (topics e) T = Some t"
  shows "h' = foldl (\<lambda>g m. snd (sendToClient w
                       (Event \<lparr>ev_topic = T, ev_message = m, ev_ts = now, replay = True\<rparr>) g))
                h (drop (length (messages t) - nat n) (messages t)) \<and>
         length (drop (length (messages t) - nat n) (messages t)) = min (nat n) (length (messages t)) \<and>
         (readyState (h w) = 1 \<longrightarrow>
            h' = h(w := (h w)\<lparr>sent := sent (h w) @
                   map (\<lambda>m. Event \<lparr>ev_topic = T, ev_message = m, ev_ts = now, replay = True\<rparr>)
                       (drop (length (messages t) - nat n) (messages t))\<rparr>)) \<and>
         (\<forall>c'. c' \<noteq> c \<longrightarrow> map_of (subscriberQueues e') c' = map_of (subscriberQueues e) c') \<and>
         map_of (subscriberQueues e') c =
           Some (case map_of (subscriberQueues e) c of
                   Some q \<Rightarrow> q
                 | None \<Rightarrow> \<lparr>clientId = c, maxSize = maxQueueSize e, policy = backpressurePolicy e,
                            queue = [], droppedCount = 0, totalProcessed = 0\<rparr>)"
proof -
  let ?sel = "drop (length (messages t) - nat n) (messages t)"
  have hr: "h' = replay_messages T w now ?sel h"
  proof (cases "messages t = []")
    case True
    then show ?thesis using subscribe_ok_effect(1)[OF assms(1,3)] by simp
  next
    case False
    then show ?thesis
      using subscribe_ok_effect(1)[OF assms(1,3)] assms(2) by (simp add: slice_last_def)
  qed
  have f: "h' = foldl (\<lambda>g m. snd (sendToClient w
                       (Event \<lparr>ev_topic = T, ev_message = m, ev_ts = now, replay = True\<rparr>) g))
                h ?sel"
    unfolding hr replay_messages_foldl by (simp add: replay_event_def)
  have l: "length ?sel = min (nat n) (length (messages t))" by simp
  have o: "h' = h(w := (h w)\<lparr>sent := sent (h w) @
                   map (\<lambda>m. Event \<lparr>ev_topic = T, ev_message = m, ev_ts = now, replay = True\<rparr>)
                       ?sel\<rparr>)"
    if "readyState (h w) = 1"
    unfolding hr using replay_messages_open[of h w T now ?sel] that
    by (simp add: replay_event_def)
  have q: "subscriberQueues e' =
           (if has (subscriberQueues e) c then subscriberQueues e
            else AList.update c (new_queue c (maxQueueSize e) (backpressurePolicy e)) (subscriberQueues e))"
    by (rule subscribe_ok_effect(2)[OF assms(1,3)])
  have q1: "\<forall>c'. c' \<noteq> c \<longrightarrow> map_of (subscriberQueues e') c' = map_of (subscriberQueues e) c'"
    unfolding q by (simp add: update_conv')
  have q2: "map_of (subscriberQueues e') c =
           Some (case map_of (subscriberQueues e) c of
                   Some q \<Rightarrow> q
                 | None \<Rightarrow> \<lparr>clientId = c, maxSize = maxQueueSize e, policy = backpressurePolicy e,
                            queue = [], droppedCount = 0, totalProcessed = 0\<rparr>)"
    unfolding q by (auto simp: update_conv' has_def new_queue_def)
  show ?thesis using f l o q1 q2 by blast
qed

theorem replay_on_subscribe_witness:
  "fst (subscribe ''orders'' ''bob'' 0 1 9 published_engine heap0) = Inr () \<and>
   snd (snd (subscribe ''orders'' ''bob'' 0 1 9 published_engine heap0)) =
     heap0(0 := open_ws\<lparr>sent := [Event \<lparr>ev_topic = ''orders'', ev_message = stamp 6 (msg_of ''m2''),
                                           ev_ts = 9, replay = True\<rparr>]\<rparr>) \<and>
   map_of (subscriberQueues (fst (snd (subscribe ''orders'' ''bob'' 0 1 9 published_engine heap0))))
     ''bob'' = Some \<lparr>clientId = ''bob'', maxSize = 1, policy = ''drop_oldest'',
                      queue = [], droppedCount = 0, totalProcessed = 0\<rparr>"
proof -
  obtain r e' h' where s: "subscribe ''orders'' ''bob'' 0 1 9 published_engine heap0 = (r, e', h')"
    by (cases "subscribe ''orders'' ''bob'' 0 1 9 published_engine heap0")
  have r: "r = Inr ()"
    using s by (simp add: subscribe_def published_engine_eq published_topic_def has_def Let_def)
  have h1: "subscribe ''orders'' ''bob'' 0 1 9 published_engine heap0 = (Inr (), e', h')"
    using s r by simp
  have h2: "(0::int) < 1" by simp
  have h3: "map_of (topics published_engine) ''orders'' = Some published_topic"
    by (simp add: published_engine_eq)
  have h4: "readyState (heap0 0) = 1" by (simp add: heap0_def open_ws_def)
  note u = replay_on_subscribe[OF h1 h2 h3]
  have a: "h' = heap0(0 := open_ws\<lparr>sent := [Event \<lparr>ev_topic = ''orders'',
                        ev_message = stamp 6 (msg_of ''m2''), ev_ts = 9, replay = True\<rparr>]\<rparr>)"
    using u[THEN conjunct2, THEN conjunct2, THEN conjunct1] h4
    by (simp add: published_topic_def heap0_def open_ws_def)
  have b: "map_of (subscriberQueues e') ''bob'' =
             Some \<lparr>clientId = ''bob'', maxSize = 1, policy = ''drop_oldest'',
                   queue = [], droppedCount = 0, totalProcessed = 0\<rparr>"
    using u[THEN conjunct2, THEN conjunct2, THEN conjunct2, THEN conjunct2]
    by (simp add: published_engine_eq)
  show ?thesis using h1 a b by simp
qed

text \<open>
  On a connection that is not OPEN the same call succeeds and delivers nothing, although
  the buffer holds two entries and one was asked for.
\<close>

theorem replay_on_closed_connection:
  "fst (subscribe ''orders'' ''bob'' 0 1 9 published_engine (heap0(0 := closed_ws))) = Inr () \<and>
   length (messages published_topic) = 2 \<and>
   map_of (topics published_engine) ''orders'' = Some published_topic \<and>
   sent (snd (snd (subscribe ''orders'' ''bob'' 0 1 9 published_engine (heap0(0 := closed_ws)))) 0) = []"
  by (simp add: subscribe_def published_engine_eq published_topic_def has_def Let_def
      slice_last_def sendToClient_def closed_ws_def)

section \<open>deleteTopic\<close>

lemma ws_close_not_open: "readyState (ws_close code r x) \<noteq> 1"
  by (simp add: ws_close_def)

lemma close_all_keeps_closed:
  "readyState (h w) \<noteq> 1 \<Longrightarrow> readyState (close_all subs h w) \<noteq> 1"
proof (induction subs arbitrary: h)
  case Nil
  then show ?case by simp
next
  case (Cons p rest)
  obtain c' w' where p: "p = (c', w')" by (cases p)
  let ?h1 = "h(w' := ws_close 1000 ''Topic deleted'' (h w'))"
  have step: "close_all (p # rest) h = close_all rest ?h1" by (simp only: p close_all.simps)
  have "readyState (?h1 w) \<noteq> 1" using Cons.prems by (simp add: ws_close_def)
  then have "readyState (close_all rest ?h1 w) \<noteq> 1" by (rule Cons.IH)
  then show ?case unfolding step .
qed

lemma close_all_keeps_calls:
  "x \<in> set (closeCalls (h w)) \<Longrightarrow> x \<in> set (closeCalls (close_all subs h w))"
proof (induction subs arbitrary: h)
  case Nil
  then show ?case by simp
next
  case (Cons p rest)
  obtain c' w' where p: "p = (c', w')" by (cases p)
  let ?h1 = "h(w' := ws_close 1000 ''Topic deleted'' (h w'))"
  have step: "close_all (p # rest) h = close_all rest ?h1" by (simp only: p close_all.simps)
  have "x \<in> set (closeCalls (?h1 w))" using Cons.prems by (auto simp: ws_close_def)
  then have "x \<in> set (closeCalls (close_all rest ?h1 w))" by (rule Cons.IH)
  then show ?case unfolding step .
qed

lemma close_all_closes:
  "(c, w) \<in> set subs \<Longrightarrow>
     readyState (close_all subs h w) \<noteq> 1 \<and>
     (1000, ''Topic deleted'') \<in> set (closeCalls (close_all subs h w))"
proof (induction subs arbitrary: h)
  case Nil
  then show ?case by simp
next
  case (Cons p rest)
  obtain c' w' where p: "p = (c', w')" by (cases p)
  let ?h1 = "h(w' := ws_close 1000 ''Topic deleted'' (h w'))"
  have step: "close_all (p # rest) h = close_all rest ?h1" by (simp only: p close_all.simps)
  show ?case
  proof (cases "(c, w) \<in> set rest")
    case True
    then show ?thesis unfolding step by (rule Cons.IH)
  next
    case False
    then have w: "w = w'" using Cons.prems p by simp
    have a: "readyState (?h1 w) \<noteq> 1" using w by (simp add: ws_close_def)
    have b: "(1000, ''Topic deleted'') \<in> set (closeCalls (?h1 w))"
      using w by (simp add: ws_close_def)
    show ?thesis unfolding step
      using close_all_keeps_closed[of ?h1 w rest, OF a]
        close_all_keeps_calls[of "(1000, ''Topic deleted'')" ?h1 w rest, OF b]
      by blast
  qed
qed

lemma close_all_sent: "sent (close_all subs h w) = sent (h w)"
proof (induction subs arbitrary: h)
  case Nil
  then show ?case by simp
next
  case (Cons p rest)
  obtain c' w' where p: "p = (c', w')" by (cases p)
  let ?h1 = "h(w' := ws_close 1000 ''Topic deleted'' (h w'))"
  have step: "close_all (p # rest) h = close_all rest ?h1" by (simp only: p close_all.simps)
  have "sent (close_all rest ?h1 w) = sent (?h1 w)" by (rule Cons.IH)
  also have "\<dots> = sent (h w)" by (simp add: ws_close_def)
  finally show ?case unfolding step .
qed

lemma cleanup_clientTopics_entries:
  "(c, ts) \<in> set (cleanup_clientTopics n ct) \<Longrightarrow> n \<notin> set ts \<and> ts \<noteq> []"
  by (induction n ct rule: cleanup_clientTopics.induct) (auto simp: set_delete_def split: if_splits)

text \<open>
  Claim C6, as the code has it. \<open>deleteTopic\<close> returns false, changing nothing, when
  the name is absent. Otherwise it calls \<^verbatim>\<open>close(1000, 'Topic deleted')\<close> on the
  connection of every subscriber, removes the topic and leaves the others, removes the
  name from every client's topic set (no empty set is kept), and returns the boolean true.
  The numbers of subscribers and of messages are what \<open>getTopic\<close> reports before the call.
\<close>

theorem deleteTopic_returns_boolean:
  shows "(\<not> has (topics e) n \<longrightarrow> deleteTopic n e h = (False, e, h)) \<and>
         (map_of (topics e) n = Some t \<longrightarrow>
            (case deleteTopic n e h of (r, e', h') \<Rightarrow>
               r = True \<and> \<not> has (topics e') n \<and>
               (\<forall>n'. n' \<noteq> n \<longrightarrow> map_of (topics e') n' = map_of (topics e) n') \<and>
               (\<forall>(c, ts) \<in> set (clientTopics e'). n \<notin> set ts \<and> ts \<noteq> []) \<and>
               (\<forall>(c, w) \<in> set (subscribers t).
                  readyState (h' w) \<noteq> 1 \<and> (1000, ''Topic deleted'') \<in> set (closeCalls (h' w))) \<and>
               getTopic n e = Some \<lparr>info_name = n, info_subscribers = length (subscribers t),
                                     info_messages = length (messages t),
                                     info_createdAt = createdAt t\<rparr>))"
proof -
  have a: "\<not> has (topics e) n \<Longrightarrow> deleteTopic n e h = (False, e, h)"
    by (simp add: deleteTopic_def has_def)
  have b: "case deleteTopic n e h of (r, e', h') \<Rightarrow>
               r = True \<and> \<not> has (topics e') n \<and>
               (\<forall>n'. n' \<noteq> n \<longrightarrow> map_of (topics e') n' = map_of (topics e) n') \<and>
               (\<forall>(c, ts) \<in> set (clientTopics e'). n \<notin> set ts \<and> ts \<noteq> []) \<and>
               (\<forall>(c, w) \<in> set (subscribers t).
                  readyState (h' w) \<noteq> 1 \<and> (1000, ''Topic deleted'') \<in> set (closeCalls (h' w))) \<and>
               getTopic n e = Some \<lparr>info_name = n, info_subscribers = length (subscribers t),
                                     info_messages = length (messages t),
                                     info_createdAt = createdAt t\<rparr>"
    if t: "map_of (topics e) n = Some t"
  proof -
    have d: "deleteTopic n e h =
        (True, e\<lparr>topics := AList.delete n (topics e),
                 clientTopics := cleanup_clientTopics n (clientTopics e)\<rparr>,
         close_all (subscribers t) h)"
      using t by (simp add: deleteTopic_def)
    have 1: "\<not> has (AList.delete n (topics e)) n" by (simp add: has_def delete_conv')
    have 2: "\<forall>n'. n' \<noteq> n \<longrightarrow> map_of (AList.delete n (topics e)) n' = map_of (topics e) n'"
      by (simp add: delete_conv')
    have 3: "\<forall>(c, ts) \<in> set (cleanup_clientTopics n (clientTopics e)). n \<notin> set ts \<and> ts \<noteq> []"
      using cleanup_clientTopics_entries by fastforce
    have 4: "\<forall>(c, w) \<in> set (subscribers t).
               readyState (close_all (subscribers t) h w) \<noteq> 1 \<and>
               (1000, ''Topic deleted'') \<in> set (closeCalls (close_all (subscribers t) h w))"
      using close_all_closes by fastforce
    have 5: "getTopic n e = Some \<lparr>info_name = n, info_subscribers = length (subscribers t),
                                     info_messages = length (messages t),
                                     info_createdAt = createdAt t\<rparr>"
      using t by (simp add: getTopic_def)
    show ?thesis unfolding d using 1 2 3 4 5 by simp
  qed
  show ?thesis using a b by blast
qed

theorem deleteTopic_returns_boolean_witness:
  "deleteTopic ''ghost'' subscribed_engine heap0 = (False, subscribed_engine, heap0) \<and>
   (case deleteTopic ''orders'' subscribed_engine heap0 of (r, e', h') \<Rightarrow>
      r = True \<and> \<not> has (topics e') ''orders'' \<and>
      readyState (h' 0) \<noteq> 1 \<and> (1000, ''Topic deleted'') \<in> set (closeCalls (h' 0)))"
proof -
  have g: "\<not> has (topics subscribed_engine) ''ghost''"
    by (simp add: subscribed_engine_eq has_def)
  have o: "map_of (topics subscribed_engine) ''orders'' = Some alice_topic"
    by (simp add: subscribed_engine_eq)
  show ?thesis
    using deleteTopic_returns_boolean[of subscribed_engine "''ghost''" heap0 alice_topic]
      deleteTopic_returns_boolean[of subscribed_engine "''orders''" heap0 alice_topic] g o
    by (auto simp: alice_topic_def)
qed

text \<open>
  The value returned for a topic with one subscriber and no message and for a topic with
  no subscriber and two messages is the same \<open>True\<close>: it carries no counts.
\<close>

theorem deleteTopic_result_has_no_counts:
  "fst (deleteTopic ''orders'' subscribed_engine heap0) = True \<and>
   fst (deleteTopic ''orders'' published_engine heap0) = True \<and>
   getTopic ''orders'' subscribed_engine =
     Some \<lparr>info_name = ''orders'', info_subscribers = 1, info_messages = 0, info_createdAt = 1\<rparr> \<and>
   getTopic ''orders'' published_engine =
     Some \<lparr>info_name = ''orders'', info_subscribers = 0, info_messages = 2, info_createdAt = 1\<rparr>"
  by (simp add: deleteTopic_def getTopic_def subscribed_engine_eq published_engine_eq
      alice_topic_def published_topic_def)

section \<open>The registry invariant\<close>

lemma has_update: "has (AList.update k v al) k' \<longleftrightarrow> k' = k \<or> has al k'"
  by (simp add: has_def update_conv')

lemma has_delete: "has (AList.delete k al) k' \<longleftrightarrow> k' \<noteq> k \<and> has al k'"
  by (simp add: has_def delete_conv')

lemma engine_inv_new: "engine_inv (new_engine opts)"
  by (simp add: engine_inv_def new_engine_def)

lemma engine_inv_createTopic:
  assumes "engine_inv e"
  shows "engine_inv (snd (createTopic n now e))"
proof (cases "has (topics e) n")
  case True
  then show ?thesis using assms by (simp add: createTopic_def)
next
  case False
  then show ?thesis using assms
    by (auto simp: createTopic_def engine_inv_def update_conv' has_def split: if_splits)
qed

lemma cleanup_clientTopics_lookup:
  "map_of ct c = Some ts \<Longrightarrow> set_delete n ts \<noteq> [] \<Longrightarrow>
     map_of (cleanup_clientTopics n ct) c = Some (set_delete n ts)"
  by (induction n ct rule: cleanup_clientTopics.induct) (auto split: if_splits)

lemma engine_inv_deleteTopic:
  assumes "engine_inv e"
  shows "engine_inv (fst (snd (deleteTopic n e h)))"
proof (cases "map_of (topics e) n")
  case None
  then show ?thesis using assms by (simp add: deleteTopic_def)
next
  case (Some t0)
  let ?e' = "e\<lparr>topics := AList.delete n (topics e),
               clientTopics := cleanup_clientTopics n (clientTopics e)\<rparr>"
  have e': "fst (snd (deleteTopic n e h)) = ?e'" using Some by (simp add: deleteTopic_def)
  have "engine_inv ?e'"
    unfolding engine_inv_def
  proof (intro allI impI)
    fix T t assume "map_of (topics ?e') T = Some t"
    then have Tn: "T \<noteq> n" and t: "map_of (topics e) T = Some t"
      by (auto simp: delete_conv' split: if_splits)
    from assms t have d: "distinct (map fst (subscribers t))"
      and s: "\<And>c. has (subscribers t) c \<Longrightarrow> has (subscriberQueues e) c \<and>
                 (\<exists>ts. map_of (clientTopics e) c = Some ts \<and> T \<in> set ts)"
      unfolding engine_inv_def by blast+
    have "has (subscriberQueues ?e') c \<and>
          (\<exists>ts. map_of (clientTopics ?e') c = Some ts \<and> T \<in> set ts)"
      if "has (subscribers t) c" for c
    proof -
      from s[OF that] obtain ts where q: "has (subscriberQueues e) c"
        and ts: "map_of (clientTopics e) c = Some ts" "T \<in> set ts" by blast
      have mem: "T \<in> set (set_delete n ts)" using ts(2) Tn by (simp add: set_delete_def)
      then have "set_delete n ts \<noteq> []" by auto
      from cleanup_clientTopics_lookup[OF ts(1) this]
      show ?thesis using q mem by simp
    qed
    then show "distinct (map fst (subscribers t)) \<and>
        (\<forall>c. has (subscribers t) c \<longrightarrow> has (subscriberQueues ?e') c \<and>
           (\<exists>ts. map_of (clientTopics ?e') c = Some ts \<and> T \<in> set ts))"
      using d by blast
  qed
  then show ?thesis using e' by simp
qed


lemma subscribe_engine:
  assumes "map_of (topics e) T = Some t" "\<not> has (subscribers t) c"
  shows "fst (snd (subscribe T c w n now e h)) =
     e\<lparr>topics := AList.update T (t\<lparr>subscribers := AList.update c w (subscribers t)\<rparr>) (topics e),
       clientTopics := AList.map_entry c (set_add T)
          (if \<not> has (clientTopics e) c then AList.update c [] (clientTopics e) else clientTopics e),
       subscriberQueues :=
          (if \<not> has (subscriberQueues e) c
           then AList.update c (new_queue c (maxQueueSize e) (backpressurePolicy e)) (subscriberQueues e)
           else subscriberQueues e)\<rparr>"
  using assms by (simp add: subscribe_def Let_def)

lemma subscribe_clientTopics_lookup:
  "map_of (AList.map_entry c (set_add T)
      (if \<not> has ct c then AList.update c [] ct else ct)) c' =
   (if c' = c then Some (set_add T (case map_of ct c of None \<Rightarrow> [] | Some ts \<Rightarrow> ts))
    else map_of ct c')"
  by (auto simp: map_of_map_entry update_conv' has_def split: option.splits)

lemma engine_inv_subscribe:
  assumes "engine_inv e"
  shows "engine_inv (fst (snd (subscribe T c w n now e h)))"
proof (cases "map_of (topics e) T")
  case None
  then show ?thesis using assms by (simp add: subscribe_def)
next
  case (Some t0)
  show ?thesis
  proof (cases "has (subscribers t0) c")
    case True
    then show ?thesis using assms Some by (simp add: subscribe_def)
  next
    case False
    let ?ct = "AList.map_entry c (set_add T)
          (if \<not> has (clientTopics e) c then AList.update c [] (clientTopics e) else clientTopics e)"
    let ?qs = "(if \<not> has (subscriberQueues e) c
           then AList.update c (new_queue c (maxQueueSize e) (backpressurePolicy e)) (subscriberQueues e)
           else subscriberQueues e)"
    let ?t0' = "t0\<lparr>subscribers := AList.update c w (subscribers t0)\<rparr>"
    let ?e' = "e\<lparr>topics := AList.update T ?t0' (topics e), clientTopics := ?ct,
                 subscriberQueues := ?qs\<rparr>"
    have e': "fst (snd (subscribe T c w n now e h)) = ?e'"
      by (rule subscribe_engine[OF Some False])
    have qc: "has ?qs c" by (simp add: has_update)
    have qmono: "has (subscriberQueues e) c' \<Longrightarrow> has ?qs c'" for c'
      by (simp add: has_update)
    have ctc: "\<exists>ts. map_of ?ct c = Some ts \<and> T \<in> set ts"
      unfolding subscribe_clientTopics_lookup by (simp add: set_add_def)
    have ctmono: "\<exists>ts. map_of ?ct c' = Some ts \<and> T' \<in> set ts"
      if "map_of (clientTopics e) c' = Some ts0" "T' \<in> set ts0" for c' T' ts0
      unfolding subscribe_clientTopics_lookup using that by (auto simp: set_add_def)
    have "engine_inv ?e'"
      unfolding engine_inv_def
    proof (intro allI impI)
      fix T' t assume a: "map_of (topics ?e') T' = Some t"
      show "distinct (map fst (subscribers t)) \<and>
        (\<forall>c'. has (subscribers t) c' \<longrightarrow> has (subscriberQueues ?e') c' \<and>
           (\<exists>ts. map_of (clientTopics ?e') c' = Some ts \<and> T' \<in> set ts))"
      proof (cases "T' = T")
        case True
        then have t: "t = ?t0'" using a by (simp add: update_conv')
        from assms Some have d0: "distinct (map fst (subscribers t0))"
          and s0: "\<And>c'. has (subscribers t0) c' \<Longrightarrow> has (subscriberQueues e) c' \<and>
                 (\<exists>ts. map_of (clientTopics e) c' = Some ts \<and> T \<in> set ts)"
          unfolding engine_inv_def by blast+
        have d: "distinct (map fst (subscribers t))" unfolding t using d0 by (simp add: distinct_update)
        have "has ?qs c' \<and> (\<exists>ts. map_of ?ct c' = Some ts \<and> T \<in> set ts)"
          if "has (subscribers t) c'" for c'
        proof (cases "c' = c")
          case True
          then show ?thesis using qc ctc by simp
        next
          case False
          then have "has (subscribers t0) c'" using that unfolding t by (simp add: has_update)
          from s0[OF this] show ?thesis using qmono ctmono by blast
        qed
        then show ?thesis using d True by simp
      next
        case False
        then have t: "map_of (topics e) T' = Some t" using a by (simp add: update_conv')
        from assms t have d: "distinct (map fst (subscribers t))"
          and s: "\<And>c'. has (subscribers t) c' \<Longrightarrow> has (subscriberQueues e) c' \<and>
                 (\<exists>ts. map_of (clientTopics e) c' = Some ts \<and> T' \<in> set ts)"
          unfolding engine_inv_def by blast+
        have "has ?qs c' \<and> (\<exists>ts. map_of ?ct c' = Some ts \<and> T' \<in> set ts)"
          if "has (subscribers t) c'" for c'
          using s[OF that] qmono ctmono by blast
        then show ?thesis using d by simp
      qed
    qed
    then show ?thesis using e' by simp
  qed
qed


lemma unsubscribe_topics:
  assumes "map_of (topics e) T = Some t" "has (subscribers t) c"
  shows "topics (snd (unsubscribe T c e)) =
           AList.update T (t\<lparr>subscribers := AList.delete c (subscribers t)\<rparr>) (topics e)"
  using assms by (simp add: unsubscribe_def Let_def split: option.splits)

lemma unsubscribe_other_client:
  assumes "c' \<noteq> c"
  shows "has (subscriberQueues (snd (unsubscribe T c e))) c' = has (subscriberQueues e) c'"
    and "map_of (clientTopics (snd (unsubscribe T c e))) c' = map_of (clientTopics e) c'"
  using assms
  by (auto simp: unsubscribe_def Let_def has_delete update_conv' delete_conv' split: option.splits)

lemma unsubscribe_same_client:
  assumes "map_of (clientTopics e) c = Some ts" "T' \<in> set ts" "T' \<noteq> T"
  shows "has (subscriberQueues (snd (unsubscribe T c e))) c = has (subscriberQueues e) c"
    and "\<exists>ts'. map_of (clientTopics (snd (unsubscribe T c e))) c = Some ts' \<and> T' \<in> set ts'"
proof -
  have mem: "T' \<in> set (set_delete T ts)"
    using assms(2,3) by (simp add: set_delete_def)
  then have ne: "set_delete T ts \<noteq> []" by auto
  show "has (subscriberQueues (snd (unsubscribe T c e))) c = has (subscriberQueues e) c"
    using assms(1) ne by (auto simp: unsubscribe_def Let_def split: option.splits)
  show "\<exists>ts'. map_of (clientTopics (snd (unsubscribe T c e))) c = Some ts' \<and> T' \<in> set ts'"
    using assms(1,2) ne mem by (auto simp: unsubscribe_def Let_def update_conv' split: option.splits)
qed

lemma engine_inv_unsubscribe:
  assumes "engine_inv e"
  shows "engine_inv (snd (unsubscribe T c e))"
proof (cases "\<exists>t. map_of (topics e) T = Some t \<and> has (subscribers t) c")
  case False
  then have "snd (unsubscribe T c e) = e"
    by (auto simp: unsubscribe_def split: option.splits)
  then show ?thesis using assms by simp
next
  case True
  then obtain t0 where t0: "map_of (topics e) T = Some t0" and sub: "has (subscribers t0) c" by blast
  let ?e' = "snd (unsubscribe T c e)"
  let ?t0' = "t0\<lparr>subscribers := AList.delete c (subscribers t0)\<rparr>"
  have tops: "topics ?e' = AList.update T ?t0' (topics e)" by (rule unsubscribe_topics[OF t0 sub])
  show ?thesis
    unfolding engine_inv_def
  proof (intro allI impI)
    fix T' t assume a: "map_of (topics ?e') T' = Some t"
    show "distinct (map fst (subscribers t)) \<and>
        (\<forall>c'. has (subscribers t) c' \<longrightarrow> has (subscriberQueues ?e') c' \<and>
           (\<exists>ts. map_of (clientTopics ?e') c' = Some ts \<and> T' \<in> set ts))"
    proof (cases "T' = T")
      case True
      then have t: "t = ?t0'" using a tops by (simp add: update_conv')
      from assms t0 have d0: "distinct (map fst (subscribers t0))"
        and s0: "\<And>c'. has (subscribers t0) c' \<Longrightarrow> has (subscriberQueues e) c' \<and>
                 (\<exists>ts. map_of (clientTopics e) c' = Some ts \<and> T \<in> set ts)"
        unfolding engine_inv_def by blast+
      have d: "distinct (map fst (subscribers t))" unfolding t using d0 by (simp add: distinct_delete)
      have "has (subscriberQueues ?e') c' \<and> (\<exists>ts. map_of (clientTopics ?e') c' = Some ts \<and> T \<in> set ts)"
        if "has (subscribers t) c'" for c'
      proof -
        from that have ne: "c' \<noteq> c" and h0: "has (subscribers t0) c'"
          unfolding t by (simp_all add: has_delete)
        show ?thesis using s0[OF h0] unsubscribe_other_client[OF ne, of T e] by simp
      qed
      then show ?thesis using d True by simp
    next
      case False
      then have t: "map_of (topics e) T' = Some t" using a tops by (simp add: update_conv')
      from assms t have d: "distinct (map fst (subscribers t))"
        and s: "\<And>c'. has (subscribers t) c' \<Longrightarrow> has (subscriberQueues e) c' \<and>
                 (\<exists>ts. map_of (clientTopics e) c' = Some ts \<and> T' \<in> set ts)"
        unfolding engine_inv_def by blast+
      have "has (subscriberQueues ?e') c' \<and> (\<exists>ts. map_of (clientTopics ?e') c' = Some ts \<and> T' \<in> set ts)"
        if "has (subscribers t) c'" for c'
      proof (cases "c' = c")
        case True
        from s[OF that] obtain ts where q: "has (subscriberQueues e) c'"
          and ts: "map_of (clientTopics e) c' = Some ts" "T' \<in> set ts" by blast
        show ?thesis
          using unsubscribe_same_client[of e c ts T' T] ts q True False by simp
      next
        case ne: False
        show ?thesis using s[OF that] unsubscribe_other_client[OF ne, of T e] by simp
      qed
      then show ?thesis using d by simp
    qed
  qed
qed

lemma engine_inv_unsubscribe_each:
  "engine_inv e \<Longrightarrow> engine_inv (unsubscribe_each ts c e)"
  by (induction ts arbitrary: e) (simp_all add: engine_inv_unsubscribe)

lemma engine_inv_disconnectClient:
  "engine_inv e \<Longrightarrow> engine_inv (snd (disconnectClient c e))"
  by (simp add: disconnectClient_def engine_inv_unsubscribe_each split: option.splits)

lemma engine_inv_shutdown: "engine_inv (shutdown e)"
  by (simp add: engine_inv_def shutdown_def)

section \<open>Fan-out\<close>

lemma add_queue_indep: "fst (snd (add ev w q h)) = fst (snd (add ev w' q h'))"
  by (simp add: add_def)

lemma add_heap_other: "w' \<noteq> w \<Longrightarrow> snd (snd (add ev w q h)) w' = h w'"
  by (simp add: add_def)

lemma sendToClient_other: "w' \<noteq> w \<Longrightarrow> snd (sendToClient w f h) w' = h w'"
  by (simp add: sendToClient_def)

text \<open>One turn of the fan-out loop, as seen from the queues and the connections.\<close>

lemma fan_out_step:
  "snd (fan_out T m now ((cid, w) # rest) qs h) =
     (case map_of qs cid of
        None \<Rightarrow> snd (fan_out T m now rest qs h)
      | Some q \<Rightarrow>
          snd (fan_out T m now rest
                 (AList.update cid (fst (snd (add (live_event T now m) w q h))) qs)
                 (if success (fst (add (live_event T now m) w q h))
                  then snd (sendToClient w (Event (live_event T now m))
                              (snd (snd (add (live_event T now m) w q h))))
                  else snd (snd (add (live_event T now m) w q h)))))"
  by (simp split: option.splits prod.splits)

lemma fan_out_queues:
  assumes "distinct (map fst subs)"
  shows "map_of (fst (snd (fan_out T m now subs qs h))) c =
           (if c \<in> fst ` set subs
            then map_option (\<lambda>q. fst (snd (add (live_event T now m) w0 q h0))) (map_of qs c)
            else map_of qs c)"
  using assms
proof (induction subs arbitrary: qs h)
  case Nil
  then show ?case by simp
next
  case (Cons p rest)
  obtain cid w where p: "p = (cid, w)" by (cases p)
  have d: "distinct (map fst rest)" and nin: "cid \<notin> fst ` set rest"
    using Cons.prems p by auto
  note IH = Cons.IH[OF d]
  show ?case
  proof (cases "map_of qs cid")
    case None
    have "fst (snd (fan_out T m now (p # rest) qs h)) = fst (snd (fan_out T m now rest qs h))"
      using fan_out_step[of T m now cid w rest qs h] None p by simp
    then show ?thesis using IH[of qs h] None nin p by auto
  next
    case (Some q)
    let ?q' = "fst (snd (add (live_event T now m) w q h))"
    let ?h2 = "(if success (fst (add (live_event T now m) w q h))
                  then snd (sendToClient w (Event (live_event T now m))
                              (snd (snd (add (live_event T now m) w q h))))
                  else snd (snd (add (live_event T now m) w q h)))"
    have "fst (snd (fan_out T m now (p # rest) qs h)) =
          fst (snd (fan_out T m now rest (AList.update cid ?q' qs) ?h2))"
      using fan_out_step[of T m now cid w rest qs h] Some p by simp
    moreover have "?q' = fst (snd (add (live_event T now m) w0 q h0))"
      by (rule add_queue_indep)
    ultimately show ?thesis
      using IH[of "AList.update cid ?q' qs" ?h2] Some nin p
      by (auto simp: update_conv')
  qed
qed

lemma fan_out_heap_other:
  "w' \<notin> snd ` set subs \<Longrightarrow> snd (snd (fan_out T m now subs qs h)) w' = h w'"
proof (induction subs arbitrary: qs h)
  case Nil
  then show ?case by simp
next
  case (Cons p rest)
  obtain cid w where p: "p = (cid, w)" by (cases p)
  have ne: "w' \<noteq> w" and nin: "w' \<notin> snd ` set rest" using Cons.prems p by auto
  note IH = Cons.IH[OF nin]
  show ?case
  proof (cases "map_of qs cid")
    case None
    then show ?thesis using fan_out_step[of T m now cid w rest qs h] IH[of qs h] p by simp
  next
    case (Some q)
    let ?q' = "fst (snd (add (live_event T now m) w q h))"
    let ?h2 = "(if success (fst (add (live_event T now m) w q h))
                  then snd (sendToClient w (Event (live_event T now m))
                              (snd (snd (add (live_event T now m) w q h))))
                  else snd (snd (add (live_event T now m) w q h)))"
    have "snd (snd (fan_out T m now (p # rest) qs h)) w' =
          snd (snd (fan_out T m now rest (AList.update cid ?q' qs) ?h2)) w'"
      using fan_out_step[of T m now cid w rest qs h] Some p by simp
    also have "\<dots> = ?h2 w'" by (rule IH)
    also have "\<dots> = h w'" using ne by (simp add: add_heap_other sendToClient_other)
    finally show ?thesis .
  qed
qed


lemma publish_ok:
  assumes "map_of (topics e) T = Some t" "valid_message m"
  shows "fst (snd (publish T m now e h)) =
           e\<lparr>topics := AList.update T
                 (t\<lparr>messages := ring_push (maxMessagesPerTopic e) (stamp now m) (messages t)\<rparr>)
                 (topics e),
             subscriberQueues :=
               fst (snd (fan_out T (stamp now m) now (subscribers t) (subscriberQueues e) h))\<rparr>"
    and "snd (snd (publish T m now e h)) =
           snd (snd (fan_out T (stamp now m) now (subscribers t) (subscriberQueues e) h))"
  using assms by (auto simp: publish_def valid_message_def split: prod.splits)

lemma has_fst_image: "has al k \<longleftrightarrow> k \<in> fst ` set al"
  by (simp add: has_def map_of_eq_None_iff)

lemma fan_out_has:
  assumes "distinct (map fst subs)"
  shows "has (fst (snd (fan_out T m now subs qs h))) c = has qs c"
  unfolding has_def fan_out_queues[OF assms, of T m now qs h c 0 h] by simp

lemma engine_inv_publish:
  assumes "engine_inv e"
  shows "engine_inv (fst (snd (publish T m now e h)))"
proof (cases "\<exists>t. map_of (topics e) T = Some t \<and> valid_message m")
  case False
  then have "fst (snd (publish T m now e h)) = e"
    by (auto simp: publish_def valid_message_def split: option.splits)
  then show ?thesis using assms by simp
next
  case True
  then obtain t0 where t0: "map_of (topics e) T = Some t0" and v: "valid_message m" by blast
  let ?qs = "fst (snd (fan_out T (stamp now m) now (subscribers t0) (subscriberQueues e) h))"
  let ?t0' = "t0\<lparr>messages := ring_push (maxMessagesPerTopic e) (stamp now m) (messages t0)\<rparr>"
  let ?e' = "e\<lparr>topics := AList.update T ?t0' (topics e), subscriberQueues := ?qs\<rparr>"
  have e': "fst (snd (publish T m now e h)) = ?e'" by (rule publish_ok(1)[OF t0 v])
  from assms t0 have d0: "distinct (map fst (subscribers t0))"
    unfolding engine_inv_def by blast
  have q: "has ?qs c = has (subscriberQueues e) c" for c by (rule fan_out_has[OF d0])
  have "engine_inv ?e'"
    unfolding engine_inv_def
  proof (intro allI impI)
    fix T' t assume a: "map_of (topics ?e') T' = Some t"
    have "\<exists>t1. map_of (topics e) T' = Some t1 \<and> subscribers t1 = subscribers t"
    proof (cases "T' = T")
      case True
      then have "t = ?t0'" using a by (simp add: update_conv')
      then show ?thesis using t0 True by simp
    next
      case False
      then show ?thesis using a by (simp add: update_conv')
    qed
    then obtain t1 where t1: "map_of (topics e) T' = Some t1" "subscribers t1 = subscribers t"
      by blast
    from assms t1(1) have "distinct (map fst (subscribers t1))"
      and "\<And>c. has (subscribers t1) c \<Longrightarrow> has (subscriberQueues e) c \<and>
                 (\<exists>ts. map_of (clientTopics e) c = Some ts \<and> T' \<in> set ts)"
      unfolding engine_inv_def by blast+
    then show "distinct (map fst (subscribers t)) \<and>
        (\<forall>c. has (subscribers t) c \<longrightarrow> has (subscriberQueues ?e') c \<and>
           (\<exists>ts. map_of (clientTopics ?e') c = Some ts \<and> T' \<in> set ts))"
      using t1(2) q by simp
  qed
  then show ?thesis using e' by simp
qed

lemma reachable_engine_inv: "reachable e \<Longrightarrow> engine_inv e"
proof (induction rule: reachable.induct)
  case (constructed opts)
  show ?case by (rule engine_inv_new)
next
  case (after_createTopic e n now)
  then show ?case by (simp add: engine_inv_createTopic)
next
  case (after_deleteTopic e n h)
  then show ?case by (simp add: engine_inv_deleteTopic)
next
  case (after_subscribe e T c w lastN now h)
  then show ?case by (simp add: engine_inv_subscribe)
next
  case (after_unsubscribe e T c)
  then show ?case by (simp add: engine_inv_unsubscribe)
next
  case (after_publish e T m now h)
  then show ?case by (simp add: engine_inv_publish)
next
  case (after_disconnectClient e c)
  then show ?case by (simp add: engine_inv_disconnectClient)
next
  case (after_shutdown e)
  show ?case by (rule engine_inv_shutdown)
qed

lemma add_queue_cases:
  "fst (snd (add ev w q h)) =
     (if int (length (queue q)) < maxSize q
      then q\<lparr>queue := queue q @ [ev], totalProcessed := totalProcessed q + 1\<rparr>
      else if policy q = ''disconnect'' then q
      else q\<lparr>queue := tl (queue q) @ [ev], droppedCount := droppedCount q + 1,
             totalProcessed := totalProcessed q + 1\<rparr>)"
  by (simp add: add_def)

text \<open>
  Claim C2, as the code has it. In a reachable state, a valid publish to topic \<open>T\<close>
  runs \<open>add\<close> once on the queue of every client of \<open>T\<close>'s subscriber map and on
  no other queue. The event carrying the message goes to the tail of the queue, after the
  head was dropped when the queue was full; under the policy \<^verbatim>\<open>disconnect\<close> a full
  queue rejects it and stays as it was. The queue of a client that is not subscribed to
  \<open>T\<close>, and every connection that is not registered in \<open>T\<close>, are unchanged.
\<close>

theorem publish_fan_out:
  assumes "reachable e" and "map_of (topics e) T = Some t" and "valid_message m"
    and "publish T m now e h = (r, e', h')"
  shows "(\<forall>c. \<not> has (subscribers t) c \<longrightarrow>
              map_of (subscriberQueues e') c = map_of (subscriberQueues e) c) \<and>
         (\<forall>c. has (subscribers t) c \<longrightarrow>
            (\<exists>q. map_of (subscriberQueues e) c = Some q \<and>
               map_of (subscriberQueues e') c =
                 Some (if int (length (queue q)) < maxSize q
                       then q\<lparr>queue := queue q @ [live_event T now (stamp now m)],
                              totalProcessed := totalProcessed q + 1\<rparr>
                       else if policy q = ''disconnect'' then q
                       else q\<lparr>queue := tl (queue q) @ [live_event T now (stamp now m)],
                              droppedCount := droppedCount q + 1,
                              totalProcessed := totalProcessed q + 1\<rparr>))) \<and>
         (\<forall>w. w \<notin> snd ` set (subscribers t) \<longrightarrow> h' w = h w)"
proof -
  have inv: "engine_inv e" by (rule reachable_engine_inv[OF assms(1)])
  from inv assms(2) have d: "distinct (map fst (subscribers t))"
    and s: "\<And>c. has (subscribers t) c \<Longrightarrow> has (subscriberQueues e) c"
    unfolding engine_inv_def by blast+
  let ?fo = "fan_out T (stamp now m) now (subscribers t) (subscriberQueues e) h"
  have qs: "subscriberQueues e' = fst (snd ?fo)"
    using publish_ok(1)[OF assms(2,3), of now h] assms(4) by simp
  have hp: "h' = snd (snd ?fo)"
    using publish_ok(2)[OF assms(2,3), of now h] assms(4) by simp
  note look = fan_out_queues[OF d, of T "stamp now m" now "subscriberQueues e" h _ 0 h]
  have 1: "map_of (subscriberQueues e') c = map_of (subscriberQueues e) c"
    if "\<not> has (subscribers t) c" for c
    using that unfolding qs look by (simp add: has_fst_image)
  have 2: "\<exists>q. map_of (subscriberQueues e) c = Some q \<and>
               map_of (subscriberQueues e') c =
                 Some (if int (length (queue q)) < maxSize q
                       then q\<lparr>queue := queue q @ [live_event T now (stamp now m)],
                              totalProcessed := totalProcessed q + 1\<rparr>
                       else if policy q = ''disconnect'' then q
                       else q\<lparr>queue := tl (queue q) @ [live_event T now (stamp now m)],
                              droppedCount := droppedCount q + 1,
                              totalProcessed := totalProcessed q + 1\<rparr>)"
    if "has (subscribers t) c" for c
  proof -
    from s[OF that] obtain q where q: "map_of (subscriberQueues e) c = Some q"
      by (auto simp: has_def)
    have "map_of (subscriberQueues e') c =
            Some (fst (snd (add (live_event T now (stamp now m)) 0 q h)))"
      using that q unfolding qs look by (simp add: has_fst_image)
    then show ?thesis using q unfolding add_queue_cases by simp
  qed
  have 3: "h' w = h w" if "w \<notin> snd ` set (subscribers t)" for w
    unfolding hp by (rule fan_out_heap_other[OF that])
  show ?thesis using 1 2 3 by blast
qed

lemma reachable_subscribed_engine: "reachable subscribed_engine"
proof -
  show ?thesis
    unfolding subscribed_engine_def
    by (rule reachable.after_subscribe[OF reachable_orders_engine])
qed

theorem publish_fan_out_witness:
  "map_of (subscriberQueues (fst (snd (publish ''orders'' (msg_of ''m1'') 5 subscribed_engine heap0))))
     ''alice'' =
     Some \<lparr>clientId = ''alice'', maxSize = 1, policy = ''drop_oldest'',
            queue = [live_event ''orders'' 5 (stamp 5 (msg_of ''m1''))],
            droppedCount = 0, totalProcessed = 1\<rparr> \<and>
   map_of (subscriberQueues (fst (snd (publish ''orders'' (msg_of ''m1'') 5 subscribed_engine heap0))))
     ''bob'' = None \<and>
   snd (snd (publish ''orders'' (msg_of ''m1'') 5 subscribed_engine heap0)) 1 = heap0 1"
proof -
  obtain r e' h' where p: "publish ''orders'' (msg_of ''m1'') 5 subscribed_engine heap0 = (r, e', h')"
    by (cases "publish ''orders'' (msg_of ''m1'') 5 subscribed_engine heap0")
  have t: "map_of (topics subscribed_engine) ''orders'' = Some alice_topic"
    by (simp add: subscribed_engine_eq)
  have v: "valid_message (msg_of ''m1'')" by (simp add: valid_message_def msg_of_def)
  note fo = publish_fan_out[OF reachable_subscribed_engine t v p]
  have a: "has (subscribers alice_topic) ''alice''" by (simp add: alice_topic_def has_def)
  have b: "\<not> has (subscribers alice_topic) ''bob''" by (simp add: alice_topic_def has_def)
  have w: "(1::nat) \<notin> snd ` set (subscribers alice_topic)" by (simp add: alice_topic_def)
  have qa: "map_of (subscriberQueues subscribed_engine) ''alice'' =
              Some (new_queue ''alice'' 1 ''drop_oldest'')"
    and qb: "map_of (subscriberQueues subscribed_engine) ''bob'' = None"
    by (simp_all add: subscribed_engine_eq)
  have 1: "map_of (subscriberQueues e') ''alice'' =
     Some \<lparr>clientId = ''alice'', maxSize = 1, policy = ''drop_oldest'',
            queue = [live_event ''orders'' 5 (stamp 5 (msg_of ''m1''))],
            droppedCount = 0, totalProcessed = 1\<rparr>"
    using fo a qa by (auto simp: new_queue_def)
  have 2: "map_of (subscriberQueues e') ''bob'' = None" using fo b qb by simp
  have 3: "h' 1 = heap0 1" using fo w by simp
  show ?thesis using 1 2 3 p by simp
qed

lemma strict_engine_eq:
  "strict_engine = \<lparr>topics = [(''orders'', strict_topic)], clientTopics = [(''alice'', [''orders''])],
      subscriberQueues = [(''alice'', strict_queue)],
      maxMessagesPerTopic = 2, maxQueueSize = 1, backpressurePolicy = ''disconnect''\<rparr>"
  by (simp add: strict_engine_def createTopic_def new_engine_def strict_options_def has_def
      num_or_def str_or_def subscribe_def set_add_def publish_def msg_of_def ring_push_def
      new_queue_def add_def sendToClient_def heap0_def open_ws_def
      strict_topic_def strict_queue_def)

text \<open>
  With the policy \<^verbatim>\<open>disconnect\<close> and a full queue, a valid message published to a
  topic is not enqueued for its subscriber: the queue of \<^verbatim>\<open>alice\<close> still holds the
  first message only.
\<close>

theorem publish_not_enqueued_under_disconnect:
  "map_of (topics strict_engine) ''orders'' = Some strict_topic \<and>
   has (subscribers strict_topic) ''alice'' \<and> valid_message (msg_of ''m2'') \<and>
   map_of (subscriberQueues strict_engine) ''alice'' = Some strict_queue \<and>
   map_of (subscriberQueues (fst (snd (publish ''orders'' (msg_of ''m2'') 6 strict_engine heap0))))
     ''alice'' = Some strict_queue \<and>
   live_event ''orders'' 6 (stamp 6 (msg_of ''m2'')) \<notin> set (queue strict_queue)"
  by (simp add: strict_engine_eq publish_def valid_message_def msg_of_def strict_topic_def
      strict_queue_def add_def has_def update_conv' live_event_def stamp_def)

section \<open>The handler: identity of a connection\<close>

lemma connected_eq:
  "fst connected = \<lparr>clients = [(''conn1'', conn1_info [] None)], connectionCounter = 1\<rparr>"
  "readyState (snd connected 0) = 1"
  by (simp_all add: connected_def handleConnection_def empty_handler_def conn1_info_def
      handler_sendToClient_def heap0_def open_ws_def)

lemma two_topics_engine_eq:
  "two_topics_engine = \<lparr>topics = [(''orders'', empty_topic), (''news'', empty_topic)],
      clientTopics = [], subscriberQueues = [], maxMessagesPerTopic = 2, maxQueueSize = 1,
      backpressurePolicy = ''disconnect''\<rparr>"
  by (simp add: two_topics_engine_def createTopic_def new_engine_def strict_options_def has_def
      num_or_def str_or_def empty_topic_def)

lemma valid_sub_msg: "validateMessage (Object (sub_msg T cid)) \<longleftrightarrow> T \<noteq> []"
  by (simp add: validateMessage_def sub_msg_def validTypes_def falsy_def)

lemma after_alice_eq:
  "fst after_alice = \<lparr>clients = [(''conn1'', conn1_info [''orders''] (Some ''alice''))],
                        connectionCounter = 1\<rparr>"
  "fst (snd after_alice) =
     \<lparr>topics = [(''orders'', empty_topic\<lparr>subscribers := [(''alice'', 0)]\<rparr>), (''news'', empty_topic)],
      clientTopics = [(''alice'', [''orders''])],
      subscriberQueues = [(''alice'', new_queue ''alice'' 1 ''disconnect'')],
      maxMessagesPerTopic = 2, maxQueueSize = 1, backpressurePolicy = ''disconnect''\<rparr>"
  "readyState (snd (snd after_alice) 0) = 1"
  by (simp_all add: after_alice_def handleMessage_def validateMessage_def validTypes_def connected_eq
      two_topics_engine_eq sub_msg_def falsy_def store_client_id_def handleSubscribe_def
      pubsubClientId_def subscribe_def has_def empty_topic_def set_add_def conn1_info_def
      handler_sendToClient_def Let_def)


lemma after_bob_eq:
  "fst after_bob = \<lparr>clients = [(''conn1'', conn1_info [''orders'', ''news''] (Some ''bob''))],
                      connectionCounter = 1\<rparr>"
  "fst (snd after_bob) =
     \<lparr>topics = [(''orders'', empty_topic\<lparr>subscribers := [(''alice'', 0)]\<rparr>),
                (''news'', empty_topic\<lparr>subscribers := [(''bob'', 0)]\<rparr>)],
      clientTopics = [(''alice'', [''orders'']), (''bob'', [''news''])],
      subscriberQueues = [(''alice'', new_queue ''alice'' 1 ''disconnect''),
                          (''bob'', new_queue ''bob'' 1 ''disconnect'')],
      maxMessagesPerTopic = 2, maxQueueSize = 1, backpressurePolicy = ''disconnect''\<rparr>"
  "readyState (snd (snd after_bob) 0) = 1"
  by (simp_all add: after_bob_def handleMessage_def validateMessage_def validTypes_def after_alice_eq
      sub_msg_def falsy_def store_client_id_def handleSubscribe_def
      pubsubClientId_def subscribe_def has_def empty_topic_def set_add_def conn1_info_def
      handler_sendToClient_def Let_def)

lemma after_overflow_eq:
  "fst after_overflow =
     \<lparr>topics = [(''orders'', \<lparr>subscribers = [(''alice'', 0)],
                              messages = [stamp 5 (msg_of ''m1''), stamp 6 (msg_of ''m2'')],
                              createdAt = 1\<rparr>),
                (''news'', empty_topic\<lparr>subscribers := [(''bob'', 0)]\<rparr>)],
      clientTopics = [(''alice'', [''orders'']), (''bob'', [''news''])],
      subscriberQueues = [(''alice'', strict_queue), (''bob'', new_queue ''bob'' 1 ''disconnect'')],
      maxMessagesPerTopic = 2, maxQueueSize = 1, backpressurePolicy = ''disconnect''\<rparr>"
  "readyState (snd after_overflow 0) = 2"
  "closeCalls (snd after_overflow 0) = [(1013, ''SLOW_CONSUMER'')]"
  by (simp_all add: after_overflow_def after_bob_eq publish_def msg_of_def ring_push_def
      empty_topic_def new_queue_def add_def sendToClient_def strict_queue_def ws_close_def
      after_bob_def after_alice_def connected_def handleConnection_def handleMessage_def
      validateMessage_def validTypes_def sub_msg_def falsy_def store_client_id_def
      handleSubscribe_def pubsubClientId_def subscribe_def has_def set_add_def
      handler_sendToClient_def Let_def empty_handler_def heap0_def open_ws_def
      two_topics_engine_eq)

lemma after_close_eq:
  "fst after_close = \<lparr>clients = [], connectionCounter = 0\<rparr>"
  "subscribed (snd after_close) ''orders'' ''alice''"
  "\<not> subscribed (snd after_close) ''news'' ''bob''"
  by (simp_all add: after_close_def handleClose_def after_bob_eq after_overflow_eq conn1_info_def
      pubsubClientId_def unsubscribe_def has_def empty_topic_def set_delete_def subscribed_def
      Let_def)

lemma valid_type_cases:
  assumes "validateMessage (Object m)"
  shows "in_type m = Some ''subscribe'' \<or> in_type m = Some ''unsubscribe'' \<or>
         in_type m = Some ''publish'' \<or> in_type m = Some ''ping''"
  using assms by (auto simp: validateMessage_def validTypes_def split: option.splits if_splits)

lemma valid_topic:
  assumes "validateMessage (Object m)" "in_type m = Some ty" "ty \<in> {''subscribe'', ''unsubscribe'', ''publish''}"
  shows "\<exists>T. in_topic m = Some T \<and> T \<noteq> []"
  using assms by (auto simp: validateMessage_def validTypes_def falsy_def split: option.splits if_splits)

lemma handleMessage_dispatch:
  assumes "map_of (clients hs) conn = Some ci" and "in_client_id m = Some cid" and "cid \<noteq> []"
    and "validateMessage (Object m)"
  shows "handleMessage conn (Object m) now hs e h =
     (let hs1 = hs\<lparr>clients := AList.update conn (ci\<lparr>clientProvidedId := Some cid\<rparr>) (clients hs)\<rparr>;
          lastN = (case in_last_n m of None \<Rightarrow> 0 | Some n \<Rightarrow> n)
      in if in_type m = Some ''subscribe'' then
           handleSubscribe conn (in_topic m) lastN (in_request_id m) now hs1 e h
         else if in_type m = Some ''unsubscribe'' then
           handleUnsubscribe conn (in_topic m) (in_request_id m) now hs1 e h
         else if in_type m = Some ''publish'' then
           handlePublish conn (in_topic m) (in_message m) (in_request_id m) now hs1 e h
         else handlePing conn (in_request_id m) now hs1 e h)"
  using assms valid_type_cases[OF assms(4)]
  by (auto simp: handleMessage_def store_client_id_def falsy_def Let_def)

lemma handleSubscribe_bound:
  assumes "map_of (clients hs1) conn = Some ci1" "clientProvidedId ci1 = Some cid" "cid \<noteq> []" "T \<noteq> []"
  shows "fst (snd (handleSubscribe conn (Some T) lastN rq now hs1 e h)) =
            fst (snd (subscribe T cid (ci_ws ci1) lastN now e h))"
    and "\<exists>ci'. map_of (clients (fst (handleSubscribe conn (Some T) lastN rq now hs1 e h))) conn = Some ci' \<and>
           clientProvidedId ci' = Some cid"
  using assms
  by (auto simp: handleSubscribe_def pubsubClientId_def update_conv' split: prod.splits sum.splits)

lemma handleUnsubscribe_bound:
  assumes "map_of (clients hs1) conn = Some ci1" "clientProvidedId ci1 = Some cid" "cid \<noteq> []" "T \<noteq> []"
  shows "fst (snd (handleUnsubscribe conn (Some T) rq now hs1 e h)) = snd (unsubscribe T cid e)"
    and "\<exists>ci'. map_of (clients (fst (handleUnsubscribe conn (Some T) rq now hs1 e h))) conn = Some ci' \<and>
           clientProvidedId ci' = Some cid"
  using assms
  by (auto simp: handleUnsubscribe_def pubsubClientId_def update_conv' split: prod.splits bool.splits)

lemma handlePublish_bound:
  assumes "map_of (clients hs1) conn = Some ci1" "clientProvidedId ci1 = Some cid" "T \<noteq> []"
  shows "valid_message p \<Longrightarrow>
           fst (snd (handlePublish conn (Some T) (Some p) rq now hs1 e h)) = fst (snd (publish T p now e h))"
    and "\<exists>ci'. map_of (clients (fst (handlePublish conn (Some T) mo rq now hs1 e h))) conn = Some ci' \<and>
           clientProvidedId ci' = Some cid"
  using assms
  by (auto simp: handlePublish_def valid_message_def split: prod.splits sum.splits option.splits)

lemma handlePing_bound:
  assumes "map_of (clients hs1) conn = Some ci1" "clientProvidedId ci1 = Some cid"
  shows "\<exists>ci'. map_of (clients (fst (handlePing conn rq now hs1 e h))) conn = Some ci' \<and>
           clientProvidedId ci' = Some cid"
  using assms by (auto simp: handlePing_def update_conv')

text \<open>
  Claim C7, as the code has it. On a registered connection, a valid protocol message that
  carries a non-empty \<^verbatim>\<open>client_id\<close> stores it as the connection's
  \<open>clientProvidedId\<close>, whatever was stored before. A \<^verbatim>\<open>subscribe\<close> or
  \<^verbatim>\<open>unsubscribe\<close> message then runs the engine's operation under the \<^verbatim>\<open>client_id\<close>
  of that very message, on the connection's socket; a \<^verbatim>\<open>publish\<close> message runs the
  engine's \<open>publish\<close>, which takes no identity.
\<close>

theorem message_client_id_is_used:
  assumes "map_of (clients hs) conn = Some ci" and "in_client_id m = Some cid" and "cid \<noteq> []"
    and "validateMessage (Object m)"
  shows "(\<exists>ci'. map_of (clients (fst (handleMessage conn (Object m) now hs e h))) conn = Some ci' \<and>
                clientProvidedId ci' = Some cid) \<and>
         (\<forall>T. in_type m = Some ''subscribe'' \<and> in_topic m = Some T \<longrightarrow>
              fst (snd (handleMessage conn (Object m) now hs e h)) =
              fst (snd (subscribe T cid (ci_ws ci)
                         (case in_last_n m of None \<Rightarrow> 0 | Some n \<Rightarrow> n) now e h))) \<and>
         (\<forall>T. in_type m = Some ''unsubscribe'' \<and> in_topic m = Some T \<longrightarrow>
              fst (snd (handleMessage conn (Object m) now hs e h)) = snd (unsubscribe T cid e)) \<and>
         (\<forall>T p. in_type m = Some ''publish'' \<and> in_topic m = Some T \<and> in_message m = Some p \<and>
                valid_message p \<longrightarrow>
              fst (snd (handleMessage conn (Object m) now hs e h)) = fst (snd (publish T p now e h)))"
proof -
  let ?ci1 = "ci\<lparr>clientProvidedId := Some cid\<rparr>"
  let ?hs1 = "hs\<lparr>clients := AList.update conn ?ci1 (clients hs)\<rparr>"
  let ?n = "(case in_last_n m of None \<Rightarrow> 0 | Some n \<Rightarrow> n)"
  have c1: "map_of (clients ?hs1) conn = Some ?ci1" by (simp add: update_conv')
  have id1: "clientProvidedId ?ci1 = Some cid" by simp
  note d = handleMessage_dispatch[OF assms, of now e h]
  have sub: "handleMessage conn (Object m) now hs e h =
               handleSubscribe conn (Some T) ?n (in_request_id m) now ?hs1 e h \<and> T \<noteq> []"
    if "in_type m = Some ''subscribe''" "in_topic m = Some T" for T
    using d that valid_topic[OF assms(4) that(1)] by (simp add: Let_def)
  have unsub: "handleMessage conn (Object m) now hs e h =
               handleUnsubscribe conn (Some T) (in_request_id m) now ?hs1 e h \<and> T \<noteq> []"
    if "in_type m = Some ''unsubscribe''" "in_topic m = Some T" for T
    using d that valid_topic[OF assms(4) that(1)] by (simp add: Let_def)
  have pub: "handleMessage conn (Object m) now hs e h =
               handlePublish conn (Some T) (in_message m) (in_request_id m) now ?hs1 e h \<and> T \<noteq> []"
    if "in_type m = Some ''publish''" "in_topic m = Some T" for T
    using d that valid_topic[OF assms(4) that(1)] by (simp add: Let_def)
  have ping: "handleMessage conn (Object m) now hs e h =
               handlePing conn (in_request_id m) now ?hs1 e h"
    if "in_type m = Some ''ping''"
    using d that by (simp add: Let_def)
  have 1: "\<exists>ci'. map_of (clients (fst (handleMessage conn (Object m) now hs e h))) conn = Some ci' \<and>
                clientProvidedId ci' = Some cid"
  proof -
    consider (s) "in_type m = Some ''subscribe''" | (u) "in_type m = Some ''unsubscribe''"
      | (p) "in_type m = Some ''publish''" | (g) "in_type m = Some ''ping''"
      using valid_type_cases[OF assms(4)] by blast
    then show ?thesis
    proof cases
      case s
      from valid_topic[OF assms(4) s] obtain T where T: "in_topic m = Some T" "T \<noteq> []" by auto
      show ?thesis
        using sub[OF s T(1)] handleSubscribe_bound(2)[OF c1 id1 assms(3) T(2), of ?n _ now e h]
        by simp
    next
      case u
      from valid_topic[OF assms(4) u] obtain T where T: "in_topic m = Some T" "T \<noteq> []" by auto
      show ?thesis
        using unsub[OF u T(1)] handleUnsubscribe_bound(2)[OF c1 id1 assms(3) T(2), of _ now e h]
        by simp
    next
      case p
      from valid_topic[OF assms(4) p] obtain T where T: "in_topic m = Some T" "T \<noteq> []" by auto
      show ?thesis
        using pub[OF p T(1)] handlePublish_bound(2)[OF c1 id1 T(2), of _ _ now e h]
        by simp
    next
      case g
      show ?thesis using ping[OF g] handlePing_bound[OF c1 id1, of _ now e h] by simp
    qed
  qed
  have 2: "fst (snd (handleMessage conn (Object m) now hs e h)) =
              fst (snd (subscribe T cid (ci_ws ci) ?n now e h))"
    if "in_type m = Some ''subscribe''" "in_topic m = Some T" for T
    using sub[OF that] handleSubscribe_bound(1)[OF c1 id1 assms(3), of T ?n _ now e h] by simp
  have 3: "fst (snd (handleMessage conn (Object m) now hs e h)) = snd (unsubscribe T cid e)"
    if "in_type m = Some ''unsubscribe''" "in_topic m = Some T" for T
    using unsub[OF that] handleUnsubscribe_bound(1)[OF c1 id1 assms(3), of T _ now e h] by simp
  have 4: "fst (snd (handleMessage conn (Object m) now hs e h)) = fst (snd (publish T p now e h))"
    if "in_type m = Some ''publish''" "in_topic m = Some T" "in_message m = Some p" "valid_message p"
    for T p
    using pub[OF that(1,2)] that(3,4) handlePublish_bound(1)[OF c1 id1, of T p _ now e h] by simp
  show ?thesis using 1 2 3 4 by blast
qed

theorem message_client_id_is_used_witness:
  "(\<exists>ci'. map_of (clients (fst after_bob)) ''conn1'' = Some ci' \<and> clientProvidedId ci' = Some ''bob'') \<and>
   fst (snd after_bob) =
     fst (snd (subscribe ''news'' ''bob'' 0 0 3 (fst (snd after_alice)) (snd (snd after_alice))))"
proof -
  have c: "map_of (clients (fst after_alice)) ''conn1'' = Some (conn1_info [''orders''] (Some ''alice''))"
    by (simp add: after_alice_eq)
  have i: "in_client_id (sub_msg ''news'' ''bob'') = Some ''bob''" by (simp add: sub_msg_def)
  have n: "''bob'' \<noteq> []" by simp
  have v: "validateMessage (Object (sub_msg ''news'' ''bob''))" by (simp add: valid_sub_msg)
  have t: "in_type (sub_msg ''news'' ''bob'') = Some ''subscribe'' \<and>
           in_topic (sub_msg ''news'' ''bob'') = Some ''news''"
    by (simp add: sub_msg_def)
  have l: "in_last_n (sub_msg ''news'' ''bob'') = None" by (simp add: sub_msg_def)
  have w: "ci_ws (conn1_info [''orders''] (Some ''alice'')) = 0" by (simp add: conn1_info_def)
  note u = message_client_id_is_used[OF c i n v, of 3 "fst (snd after_alice)" "snd (snd after_alice)"]
  have 1: "\<exists>ci'. map_of (clients (fst after_bob)) ''conn1'' = Some ci' \<and>
                 clientProvidedId ci' = Some ''bob''"
    using u unfolding after_bob_def by (elim conjE)
  have 2: "fst (snd after_bob) =
     fst (snd (subscribe ''news'' ''bob'' 0 0 3 (fst (snd after_alice)) (snd (snd after_alice))))"
    using u t l w unfolding after_bob_def by simp
  show ?thesis using 1 2 by (rule conjI)
qed

text \<open>
  The second \<^verbatim>\<open>client_id\<close> of a connection is not ignored: the connection that
  subscribed as \<^verbatim>\<open>alice\<close> is recorded as \<^verbatim>\<open>bob\<close> after its second message, and
  it is \<^verbatim>\<open>bob\<close>, not \<^verbatim>\<open>alice\<close>, who is subscribed to \<^verbatim>\<open>news\<close>.
\<close>

theorem later_client_id_replaces_first:
  "map_of (clients (fst after_alice)) ''conn1'' = Some (conn1_info [''orders''] (Some ''alice'')) \<and>
   map_of (clients (fst after_bob)) ''conn1'' = Some (conn1_info [''orders'', ''news''] (Some ''bob'')) \<and>
   subscribed (fst (snd after_bob)) ''news'' ''bob'' \<and>
   \<not> subscribed (fst (snd after_bob)) ''news'' ''alice''"
  by (simp add: after_alice_eq after_bob_eq subscribed_def has_def empty_topic_def)


section \<open>The handler: a slow consumer under the policy disconnect\<close>

lemma subscribed_unsubscribe:
  "subscribed (snd (unsubscribe T' c e)) T c \<longleftrightarrow> subscribed e T c \<and> T \<noteq> T'"
  by (auto simp: subscribed_def unsubscribe_def Let_def update_conv' has_delete
      split: option.splits if_splits)

lemma subscribed_unsubscribe_each:
  "subscribed (unsubscribe_each ts c e) T c \<longleftrightarrow> subscribed e T c \<and> T \<notin> set ts"
  by (induction ts arbitrary: e) (auto simp: subscribed_unsubscribe)

lemma add_keeps_closed:
  assumes "readyState (h w') \<noteq> 1"
  shows "readyState (snd (snd (add ev w q h)) w') \<noteq> 1"
    and "sent (snd (snd (add ev w q h)) w') = sent (h w')"
  using assms by (auto simp: add_def ws_close_def)

lemma sendToClient_keeps_closed:
  assumes "readyState (h w') \<noteq> 1"
  shows "readyState (snd (sendToClient w f h) w') \<noteq> 1"
    and "sent (snd (sendToClient w f h) w') = sent (h w')"
  using assms by (auto simp: sendToClient_def)

lemma fan_out_keeps_closed:
  "readyState (h w') \<noteq> 1 \<Longrightarrow>
     readyState (snd (snd (fan_out T m now subs qs h)) w') \<noteq> 1 \<and>
     sent (snd (snd (fan_out T m now subs qs h)) w') = sent (h w')"
proof (induction subs arbitrary: qs h)
  case Nil
  then show ?case by simp
next
  case (Cons p rest)
  obtain cid w where p: "p = (cid, w)" by (cases p)
  show ?case
  proof (cases "map_of qs cid")
    case None
    then show ?thesis
      using fan_out_step[of T m now cid w rest qs h] Cons.IH[of h qs] Cons.prems p by simp
  next
    case (Some q)
    let ?q' = "fst (snd (add (live_event T now m) w q h))"
    let ?h1 = "snd (snd (add (live_event T now m) w q h))"
    let ?h2 = "(if success (fst (add (live_event T now m) w q h))
                  then snd (sendToClient w (Event (live_event T now m)) ?h1)
                  else ?h1)"
    have s: "snd (fan_out T m now (p # rest) qs h) =
             snd (fan_out T m now rest (AList.update cid ?q' qs) ?h2)"
      using fan_out_step[of T m now cid w rest qs h] Some p by simp
    have c1: "readyState (?h1 w') \<noteq> 1" and s1: "sent (?h1 w') = sent (h w')"
      using add_keeps_closed[of h w' "live_event T now m" w q] Cons.prems by simp_all
    have c2: "readyState (?h2 w') \<noteq> 1" and s2: "sent (?h2 w') = sent (h w')"
      using sendToClient_keeps_closed[of ?h1 w' w "Event (live_event T now m)"] c1 s1 by simp_all
    show ?thesis unfolding s using Cons.IH[of ?h2 "AList.update cid ?q' qs"] c2 s2 by simp
  qed
qed

lemma publish_keeps_closed:
  assumes "readyState (h w) \<noteq> 1"
  shows "readyState (snd (snd (publish T m now e h)) w) \<noteq> 1 \<and>
         sent (snd (snd (publish T m now e h)) w) = sent (h w)"
proof (cases "\<exists>t. map_of (topics e) T = Some t \<and> valid_message m")
  case False
  then have "snd (snd (publish T m now e h)) = h"
    by (auto simp: publish_def valid_message_def split: option.splits)
  then show ?thesis using assms by simp
next
  case True
  then obtain t where t: "map_of (topics e) T = Some t" and v: "valid_message m" by blast
  show ?thesis unfolding publish_ok(2)[OF t v]
    using fan_out_keeps_closed[of h w T "stamp now m" now "subscribers t" "subscriberQueues e"] assms
    by simp
qed

lemma handleClose_effect:
  assumes "map_of (clients hs) conn = Some ci"
  shows "handleClose conn hs e =
           (hs\<lparr>clients := AList.delete conn (clients hs),
               connectionCounter := connectionCounter hs - 1\<rparr>,
            unsubscribe_each (ci_topics ci) (pubsubClientId ci conn) e)"
  using assms by (simp add: handleClose_def)

text \<open>
  The steps of a disconnect. On a full queue with the policy \<^verbatim>\<open>disconnect\<close>,
  \<open>add\<close> returns the rejection with reason SLOW_CONSUMER, leaves the queue (and so
  \<open>droppedCount\<close>) as it was, and calls \<^verbatim>\<open>close(1013, 'SLOW_CONSUMER')\<close> on the
  connection, which is then not OPEN. A connection that is not OPEN is sent nothing by
  any later publish and stays not OPEN. When the close is handled, the connection's
  record is removed and \<open>unsubscribe\<close> has run, for every topic of the connection's
  topic set, under the identity the connection has at that moment.
\<close>

lemma slow_consumer_steps:
  assumes "policy q = ''disconnect''" and "int (length (queue q)) = maxSize q"
  shows "add ev w q h =
           (\<lparr>success = False, action = ''disconnected'', reason = Some ''SLOW_CONSUMER'',
             droppedMessage = None, res_droppedCount = droppedCount q\<rparr>,
            q, h(w := ws_close 1013 ''SLOW_CONSUMER'' (h w))) \<and>
         readyState (snd (snd (add ev w q h)) w) \<noteq> 1 \<and>
         (readyState (h2 w) \<noteq> 1 \<longrightarrow>
            sent (snd (snd (publish T m now e2 h2)) w) = sent (h2 w) \<and>
            readyState (snd (snd (publish T m now e2 h2)) w) \<noteq> 1) \<and>
         (map_of (clients hs) conn = Some ci \<longrightarrow>
            \<not> has (clients (fst (handleClose conn hs e1))) conn \<and>
            (\<forall>T' \<in> set (ci_topics ci).
               \<not> subscribed (snd (handleClose conn hs e1)) T' (pubsubClientId ci conn)))"
proof -
  have a: "add ev w q h =
           (\<lparr>success = False, action = ''disconnected'', reason = Some ''SLOW_CONSUMER'',
             droppedMessage = None, res_droppedCount = droppedCount q\<rparr>,
            q, h(w := ws_close 1013 ''SLOW_CONSUMER'' (h w)))"
    using assms by (simp add: add_disconnect_full)
  have b: "readyState (snd (snd (add ev w q h)) w) \<noteq> 1"
    unfolding a by (simp add: ws_close_def)
  have c: "sent (snd (snd (publish T m now e2 h2)) w) = sent (h2 w) \<and>
           readyState (snd (snd (publish T m now e2 h2)) w) \<noteq> 1"
    if "readyState (h2 w) \<noteq> 1"
    using publish_keeps_closed[of h2 w T m now e2] that by simp
  have d: "\<not> has (clients (fst (handleClose conn hs e1))) conn \<and>
            (\<forall>T' \<in> set (ci_topics ci).
               \<not> subscribed (snd (handleClose conn hs e1)) T' (pubsubClientId ci conn))"
    if "map_of (clients hs) conn = Some ci"
    unfolding handleClose_effect[OF that]
    by (simp add: has_delete subscribed_unsubscribe_each)
  show ?thesis using a b c d by blast
qed


lemma slow_consumer_steps_example:
  "add (live_event ''orders'' 6 (stamp 6 (msg_of ''m2''))) 0 strict_queue heap0 =
     (\<lparr>success = False, action = ''disconnected'', reason = Some ''SLOW_CONSUMER'',
       droppedMessage = None, res_droppedCount = 0\<rparr>,
      strict_queue, heap0(0 := ws_close 1013 ''SLOW_CONSUMER'' (heap0 0))) \<and>
   sent (snd (snd (publish ''orders'' (msg_of ''m3'') 7 strict_engine (heap0(0 := closed_ws)))) 0) = [] \<and>
   \<not> has (clients (fst after_close)) ''conn1'' \<and>
   \<not> subscribed (snd after_close) ''news'' ''bob'' \<and>
   \<not> subscribed (snd after_close) ''orders'' ''bob''"
proof -
  have p: "policy strict_queue = ''disconnect''" by (simp add: strict_queue_def)
  have l: "int (length (queue strict_queue)) = maxSize strict_queue" by (simp add: strict_queue_def)
  have r: "readyState ((heap0(0 := closed_ws)) 0) \<noteq> 1" by (simp add: closed_ws_def)
  have c: "map_of (clients (fst after_bob)) ''conn1'' =
             Some (conn1_info [''orders'', ''news''] (Some ''bob''))"
    by (simp add: after_bob_eq)
  note u = slow_consumer_steps[OF p l,
      where ev = "live_event ''orders'' 6 (stamp 6 (msg_of ''m2''))" and w = 0 and h = heap0
        and ?h2.0 = "heap0(0 := closed_ws)" and T = "''orders''" and m = "msg_of ''m3''" and now = 7
        and ?e2.0 = strict_engine and hs = "fst after_bob" and conn = "''conn1''"
        and ci = "conn1_info [''orders'', ''news''] (Some ''bob'')" and ?e1.0 = "fst after_overflow"]
  have d: "droppedCount strict_queue = 0" by (simp add: strict_queue_def)
  have 1: "add (live_event ''orders'' 6 (stamp 6 (msg_of ''m2''))) 0 strict_queue heap0 =
     (\<lparr>success = False, action = ''disconnected'', reason = Some ''SLOW_CONSUMER'',
       droppedMessage = None, res_droppedCount = 0\<rparr>,
      strict_queue, heap0(0 := ws_close 1013 ''SLOW_CONSUMER'' (heap0 0)))"
    using u d by simp
  have 2: "sent (snd (snd (publish ''orders'' (msg_of ''m3'') 7 strict_engine (heap0(0 := closed_ws)))) 0) = []"
    using u r by (simp add: closed_ws_def)
  have 3: "\<not> has (clients (fst after_close)) ''conn1'' \<and>
           \<not> subscribed (snd after_close) ''news'' ''bob'' \<and>
           \<not> subscribed (snd after_close) ''orders'' ''bob''"
    using u c unfolding after_close_def by (simp add: conn1_info_def pubsubClientId_def)
  show ?thesis using 1 2 3 by simp
qed

text \<open>
  Claim C4 at a concrete input. One connection subscribes to \<^verbatim>\<open>orders\<close> as
  \<^verbatim>\<open>alice\<close> and to \<^verbatim>\<open>news\<close> as \<^verbatim>\<open>bob\<close>; the queue of \<^verbatim>\<open>alice\<close> has capacity 1
  and the policy \<^verbatim>\<open>disconnect\<close>. The second message published to \<^verbatim>\<open>orders\<close> finds
  that queue full: the socket is closed with SLOW_CONSUMER, and the close is handled,
  which removes the connection. The teardown is not complete: \<^verbatim>\<open>alice\<close> is still
  subscribed to \<^verbatim>\<open>orders\<close>, on the closed socket, because \<open>handleClose\<close> ran
  \<open>unsubscribe\<close> for both topics under \<^verbatim>\<open>bob\<close> only.
\<close>

theorem close_keeps_subscription_of_earlier_identity:
  "map_of (subscriberQueues (fst after_overflow)) ''alice'' = Some strict_queue \<and>
   closeCalls (snd after_overflow 0) = [(1013, ''SLOW_CONSUMER'')] \<and>
   readyState (snd after_overflow 0) = 2 \<and>
   fst after_close = \<lparr>clients = [], connectionCounter = 0\<rparr> \<and>
   \<not> subscribed (snd after_close) ''news'' ''bob'' \<and>
   subscribed (snd after_close) ''orders'' ''alice'' \<and>
   map_option subscribers (map_of (topics (snd after_close)) ''orders'') = Some [(''alice'', 0)]"
proof -
  have "map_option subscribers (map_of (topics (snd after_close)) ''orders'') =
          Some [(''alice'', 0)]"
    by (simp add: after_close_def handleClose_def after_bob_eq after_overflow_eq conn1_info_def
        pubsubClientId_def unsubscribe_def has_def empty_topic_def set_delete_def Let_def)
  then show ?thesis by (simp add: after_overflow_eq after_close_eq)
qed

section \<open>The queue of a client without subscriptions\<close>

text \<open>
  Claim C8 at a concrete input: a topic is created, \<^verbatim>\<open>alice\<close> subscribes to it and the
  topic is deleted. The state is reachable; no topic and no client topic set is left, so
  \<^verbatim>\<open>alice\<close> holds no subscription, but her queue is still registered.
  \<open>unsubscribe\<close> from the same state removes the queue.
\<close>

theorem deleteTopic_keeps_queue:
  "reachable (fst (snd (deleteTopic ''orders'' subscribed_engine heap0))) \<and>
   topics (fst (snd (deleteTopic ''orders'' subscribed_engine heap0))) = [] \<and>
   clientTopics (fst (snd (deleteTopic ''orders'' subscribed_engine heap0))) = [] \<and>
   subscriberQueues (fst (snd (deleteTopic ''orders'' subscribed_engine heap0))) =
     [(''alice'', new_queue ''alice'' 1 ''drop_oldest'')] \<and>
   subscriberQueues (snd (unsubscribe ''orders'' ''alice'' subscribed_engine)) = []"
proof -
  have "reachable (fst (snd (deleteTopic ''orders'' subscribed_engine heap0)))"
    by (rule reachable.after_deleteTopic[OF reachable_subscribed_engine])
  then show ?thesis
    by (simp add: deleteTopic_def unsubscribe_def subscribed_engine_eq alice_topic_def has_def
        set_delete_def)
qed

end
